theory Spec2Isabelle
  imports Complex_Main "HOL-Library.Multiset"
begin

section \<open>Data model\<close>

text \<open>
  Todo objects live in a store: the same JavaScript object is reachable from the
  \<open>todos\<close> array of \<open>TodoApp\<close> and from the \<open>todo\<close> prop of a \<open>TodoItem\<close>, and
  \<open>createTodo\<close>/\<open>saveTodo\<close> write to it in place. A reference is an address of the store.
\<close>

type_synonym ref = nat

text \<open>
  A todo as the application reads and writes it: \<open>id\<close> (a string assigned by the server,
  \<open>undefined\<close> on a draft), \<open>text\<close>, and \<open>createdAt\<close> (set by \<open>createTodo\<close>).
\<close>

record todo =
  todo_id :: "string option"
  todo_text :: string
  todo_createdAt :: "nat option"

type_synonym heap = "ref \<Rightarrow> todo"

text \<open>\<open>todo.id\<close> as a condition: \<open>undefined\<close> and the empty string are falsy.\<close>

definition has_id :: "todo \<Rightarrow> bool" where
  "has_id t = (case todo_id t of None \<Rightarrow> False | Some s \<Rightarrow> s \<noteq> [])"

text \<open>The id inside a template literal: \<open>`/api/todos/${todo.id}`\<close>.\<close>

definition url_id :: "string option \<Rightarrow> string" where
  "url_id i = (case i of None \<Rightarrow> ''undefined'' | Some s \<Rightarrow> s)"

section \<open>The JavaScript engine\<close>

text \<open>
  Two built-ins that the render calls are not code of the repository: \<open>Number\<close> and
  \<open>Array.prototype.sort\<close>. The model writes out what they do where that is short to state
  and takes the rest from the engine, a parameter that every theorem ranges over.
\<close>

subsection \<open>Numbers\<close>

text \<open>The values of \<open>Number(...)\<close>: \<open>NaN\<close>, the two infinities, and the finite doubles, each
  of which is a rational.\<close>

datatype number = NaN | NegInf | Fin rat | PosInf

text \<open>\<open>x > y\<close> on numbers: false as soon as one side is \<open>NaN\<close>.\<close>

definition js_gt :: "number \<Rightarrow> number \<Rightarrow> bool" where
  "js_gt x y =
     (case (x, y) of
        (Fin a, Fin b) \<Rightarrow> b < a
      | (Fin a, NegInf) \<Rightarrow> True
      | (PosInf, Fin b) \<Rightarrow> True
      | (PosInf, NegInf) \<Rightarrow> True
      | _ \<Rightarrow> False)"

text \<open>The value of a string of decimal digits, \<open>None\<close> when another character occurs. The
  empty string has the value 0, as \<open>Number("")\<close> has.\<close>

definition digit_of :: "char \<Rightarrow> nat option" where
  "digit_of =
     map_of [(CHR ''0'', 0), (CHR ''1'', 1), (CHR ''2'', 2), (CHR ''3'', 3), (CHR ''4'', 4),
             (CHR ''5'', 5), (CHR ''6'', 6), (CHR ''7'', 7), (CHR ''8'', 8), (CHR ''9'', 9)]"

fun digits_val :: "nat \<Rightarrow> string \<Rightarrow> nat option" where
  "digits_val acc [] = Some acc"
| "digits_val acc (c # cs) =
     (case digit_of c of None \<Rightarrow> None | Some d \<Rightarrow> digits_val (10 * acc + d) cs)"

text \<open>
  A natural number as a double, as the engines convert a string of digits: the nearest
  number with 53 significant bits, the even one at a tie, and \<open>Infinity\<close> when that is
  \<open>2 ^ 1024\<close> or more. \<open>binary_shift n\<close> is the number of low bits that do not fit. So
  \<open>Number("9007199254740993")\<close> is 9007199254740992.
\<close>

function binary_shift :: "nat \<Rightarrow> nat" where
  "binary_shift n = (if n < 2 ^ 53 then 0 else Suc (binary_shift (n div 2)))"
  by pat_completeness auto
termination
  by (relation "measure (\<lambda>n. n)") auto

definition round_double :: "nat \<Rightarrow> number" where
  "round_double n =
     (let e = binary_shift n;
          q = n div 2 ^ e;
          r = n mod 2 ^ e;
          q' = (if 2 ^ e < 2 * r \<or> (2 * r = 2 ^ e \<and> odd q) then Suc q else q);
          v = q' * 2 ^ e
      in if v < 2 ^ 1024 then Fin (of_nat v) else PosInf)"

text \<open>
  What the engine is asked: \<open>engine_number\<close> is \<open>Number\<close> on the strings that are not made
  of decimal digits only (\<open>"1e3"\<close>, \<open>"-1"\<close>, \<open>" 7"\<close>, \<open>"abc"\<close>, ...); \<open>engine_sort\<close> is the
  order in which \<open>sort\<close> leaves an array that its comparator does not order (see below).
\<close>

record engine =
  engine_number :: "string \<Rightarrow> number"
  engine_sort :: "int list list \<Rightarrow> nat list"

text \<open>\<open>Number(todo.id)\<close>: \<open>NaN\<close> for \<open>undefined\<close>, the rounded value for a string of digits,
  the engine's answer for any other string.\<close>

definition Number_id :: "engine \<Rightarrow> string option \<Rightarrow> number" where
  "Number_id eng i =
     (case i of
        None \<Rightarrow> NaN
      | Some s \<Rightarrow>
          (case digits_val 0 s of
             None \<Rightarrow> engine_number eng s
           | Some n \<Rightarrow> round_double n))"

text \<open>The comparator of the render: \<open>(a, b) => (Number(a.id) > Number(b.id) ? 1 : -1)\<close>.\<close>

definition compare_todos :: "engine \<Rightarrow> heap \<Rightarrow> ref \<Rightarrow> ref \<Rightarrow> int" where
  "compare_todos eng h a b =
     (if js_gt (Number_id eng (todo_id (h a))) (Number_id eng (todo_id (h b))) then 1 else - 1)"

subsection \<open>\<open>Array.prototype.sort\<close>\<close>

text \<open>
  \<open>sort\<close> moves the elements of the array by the answers of the comparator (a positive
  answer puts the first argument after the second). When these answers order the
  elements, any two distinct ones one way and transitively, there is one ordered
  permutation and every engine returns it; \<open>insertion_sort\<close> computes it. The comparator
  of the render never answers 0, so it orders no array in which two elements convert to
  the same number or one converts to \<open>NaN\<close>; ECMAScript then leaves the order to the
  engine.
\<close>

definition ordered_by :: "('a \<Rightarrow> 'a \<Rightarrow> int) \<Rightarrow> 'a list \<Rightarrow> bool" where
  "ordered_by cmp xs =
     (distinct xs
      \<and> list_all (\<lambda>x. list_all (\<lambda>y.
            x = y \<or> (cmp x y < 0 \<and> 0 < cmp y x) \<or> (0 < cmp x y \<and> cmp y x < 0)) xs) xs
      \<and> list_all (\<lambda>x. list_all (\<lambda>y. list_all (\<lambda>z.
            cmp x z < 0 \<or> 0 \<le> cmp x y \<or> 0 \<le> cmp y z) xs) xs) xs)"

fun insert_by :: "('a \<Rightarrow> 'a \<Rightarrow> int) \<Rightarrow> 'a \<Rightarrow> 'a list \<Rightarrow> 'a list" where
  "insert_by cmp x [] = [x]"
| "insert_by cmp x (y # ys) =
     (if 0 < cmp x y then y # insert_by cmp x ys else x # y # ys)"

fun insertion_sort :: "('a \<Rightarrow> 'a \<Rightarrow> int) \<Rightarrow> 'a list \<Rightarrow> 'a list" where
  "insertion_sort cmp [] = []"
| "insertion_sort cmp (x # xs) = insert_by cmp x (insertion_sort cmp xs)"

text \<open>
  What the engine chooses when the comparator does not order the array: a sort sees the
  elements through the comparator only, so its result is a rearrangement of the positions
  that depends on the answers alone. \<open>engine_sort\<close> gets the table of all answers and
  gives the old position of each element of the result. An engine always rearranges; the
  model leaves the array as it is for a list that is not a rearrangement of the positions.
\<close>

definition permute :: "nat list \<Rightarrow> 'a list \<Rightarrow> 'a list" where
  "permute p xs = (if sort p = [0 ..< length xs] then map (\<lambda>i. xs ! i) p else xs)"

definition array_sort :: "engine \<Rightarrow> ('a \<Rightarrow> 'a \<Rightarrow> int) \<Rightarrow> 'a list \<Rightarrow> 'a list" where
  "array_sort eng cmp xs =
     (if ordered_by cmp xs then insertion_sort cmp xs
      else permute (engine_sort eng (map (\<lambda>x. map (cmp x) xs) xs)) xs)"

section \<open>The list controller: \<open>TodoApp\<close>\<close>

text \<open>The state hooks of \<open>TodoApp\<close> and its \<open>isMounted\<close> ref.\<close>

record app =
  isLoading :: bool
  todos :: "ref list"
  newTodo :: "ref option"
  refresh :: nat
  isMounted :: bool

definition addTodo :: "ref \<Rightarrow> app \<Rightarrow> app" where
  "addTodo t a = a\<lparr>newTodo := None, todos := t # todos a\<rparr>"

definition updateTodo :: "heap \<Rightarrow> ref \<Rightarrow> app \<Rightarrow> app" where
  "updateTodo h t a =
     a\<lparr>todos := map (\<lambda>globalTodo. if todo_id (h globalTodo) = todo_id (h t) then t else globalTodo)
                    (todos a)\<rparr>"

definition removeTodo :: "heap \<Rightarrow> ref \<Rightarrow> app \<Rightarrow> app" where
  "removeTodo h t a =
     a\<lparr>todos := filter (\<lambda>globalTodo. todo_id (h globalTodo) \<noteq> todo_id (h t)) (todos a)\<rparr>"

text \<open>\<open>todos.sort(...).reverse()\<close>: both calls work on the state array itself.\<close>

definition sorted_todos :: "engine \<Rightarrow> heap \<Rightarrow> ref list \<Rightarrow> ref list" where
  "sorted_todos eng h ts = rev (array_sort eng (compare_todos eng h) ts)"

text \<open>
  The children of the rendered list: the \<open>TodoItem\<close> of the draft (props \<open>didCreate\<close> and
  \<open>autofocus\<close>) and the keyed \<open>TodoItem\<close>s of the collection (props \<open>didSave\<close> and
  \<open>didDestroy\<close>).
\<close>

datatype element = DraftItem ref | ListItem ref

text \<open>
  One render of \<open>TodoApp\<close>: \<open>None\<close> stands for the "Loading..." paragraph, which replaces
  the list; otherwise the children of the list, and the state array as the sort left it.
\<close>

definition render :: "engine \<Rightarrow> heap \<Rightarrow> app \<Rightarrow> element list option \<times> app" where
  "render eng h a =
     (if isLoading a then (None, a)
      else
        (Some ((case newTodo a of None \<Rightarrow> [] | Some d \<Rightarrow> [DraftItem d])
               @ map ListItem (sorted_todos eng h (todos a))),
         a\<lparr>todos := sorted_todos eng h (todos a)\<rparr>))"

section \<open>The item controller: \<open>TodoItem\<close>\<close>

text \<open>
  One mounted \<open>TodoItem\<close>. \<open>inst\<close> names the instance and \<open>key\<close> is the React key it was
  rendered with. The callback props are recorded by whether they were passed: the draft
  gets \<open>didCreate\<close> and \<open>autofocus\<close>, a member of the collection gets \<open>didSave\<close> and
  \<open>didDestroy\<close>. \<open>text_buf\<close> is the \<open>text\<close> state (the edit buffer). \<open>timers\<close> are the
  pending timeouts of this instance, as (timer id, due time in ms); \<open>cleanup\<close> is the timer
  id held by the cleanup function that the last run of the deletion effect returned.
\<close>

record item =
  inst :: nat
  key :: "string option"
  todo :: ref
  didCreate :: bool
  didSave :: bool
  didDestroy :: bool
  autofocus :: bool
  text_buf :: string
  isSaving :: bool
  isChecked :: bool
  timers :: "(nat \<times> nat) list"
  cleanup :: "nat option"

text \<open>The calls of \<open>fetch\<close>.\<close>

datatype request =
    GET_todos
  | POST_todos todo
  | PATCH_todo string todo
  | DELETE_todo string

text \<open>
  What the \<open>then\<close> callback of a request does when it resolves: for the requests of an
  item, the instance whose \<open>setIsSaving\<close> it calls and whether the callback prop it calls
  was passed; \<open>destroyTodo\<close> also holds the \<open>todo\<close> it closed over.
\<close>

datatype cont =
    LoadK
  | CreateK nat bool
  | SaveK nat bool
  | DestroyK nat bool ref

definition createTodo :: "nat \<Rightarrow> heap \<Rightarrow> item \<Rightarrow> heap \<times> item \<times> (request \<times> cont) list" where
  "createTodo time h it =
     (let h' = h(todo it := (h (todo it))\<lparr>todo_text := text_buf it, todo_createdAt := Some time\<rparr>)
      in (h', it\<lparr>isSaving := True\<rparr>,
          [(POST_todos (h' (todo it)), CreateK (inst it) (didCreate it))]))"

definition saveTodo :: "heap \<Rightarrow> item \<Rightarrow> heap \<times> item \<times> (request \<times> cont) list" where
  "saveTodo h it =
     (let h' = h(todo it := (h (todo it))\<lparr>todo_text := text_buf it\<rparr>)
      in (h', it\<lparr>isSaving := True\<rparr>,
          [(PATCH_todo (url_id (todo_id (h' (todo it)))) (h' (todo it)),
            SaveK (inst it) (didSave it))]))"

definition handleSubmit :: "nat \<Rightarrow> heap \<Rightarrow> item \<Rightarrow> heap \<times> item \<times> (request \<times> cont) list" where
  "handleSubmit time h it =
     (if \<not> has_id (h (todo it)) then createTodo time h it
      else if todo_text (h (todo it)) \<noteq> text_buf it then saveTodo h it
      else (h, it, []))"

definition destroyTodo :: "heap \<Rightarrow> item \<Rightarrow> item \<times> (request \<times> cont)" where
  "destroyTodo h it =
     (it\<lparr>isSaving := True\<rparr>,
      (DELETE_todo (url_id (todo_id (h (todo it)))),
       DestroyK (inst it) (didDestroy it) (todo it)))"

text \<open>
  The deletion effect, \<open>useEffect(..., [isChecked, didDestroy, todo])\<close>: its cleanup is
  \<open>clearTimeout(id)\<close> when the last run set a timeout; the effect sets a timeout of 1250 ms
  when \<open>isChecked\<close>. React runs the cleanup and then the effect whenever a dependency
  changed. Timer ids are handed out in the order of the calls of \<open>setTimeout\<close>: the effect
  gets the next id and returns the one after it when it has set a timeout.
\<close>

definition destroy_cleanup :: "item \<Rightarrow> item" where
  "destroy_cleanup it =
     (case cleanup it of
        None \<Rightarrow> it
      | Some i \<Rightarrow> it\<lparr>timers := filter (\<lambda>(j, due). j \<noteq> i) (timers it), cleanup := None\<rparr>)"

definition destroy_effect :: "nat \<Rightarrow> nat \<Rightarrow> item \<Rightarrow> item \<times> nat" where
  "destroy_effect time k it =
     (if isChecked it
      then (it\<lparr>timers := timers it @ [(k, time + 1250)], cleanup := Some k\<rparr>, Suc k)
      else (it\<lparr>cleanup := None\<rparr>, k))"

definition rerun_destroy_effect :: "nat \<Rightarrow> nat \<Rightarrow> item \<Rightarrow> item \<times> nat" where
  "rerun_destroy_effect time k it = destroy_effect time k (destroy_cleanup it)"

text \<open>
  \<open>handleCheckboxChange\<close>: \<open>setIsChecked\<close> with the value of the checkbox. A state that
  does not change re-renders nothing; a changed one is a changed dependency of the effect.
\<close>

definition handleCheckboxChange :: "bool \<Rightarrow> nat \<Rightarrow> nat \<Rightarrow> item \<Rightarrow> item \<times> nat" where
  "handleCheckboxChange checked time k it =
     (if checked = isChecked it then (it, k)
      else rerun_destroy_effect time k (it\<lparr>isChecked := checked\<rparr>))"

text \<open>What the JSX of an item sets on its two controls: \<open>disabled={isSaving}\<close> on both, and
  the class \<open>opacity-0\<close> on the checkbox of a todo without id.\<close>

definition checkbox_disabled :: "item \<Rightarrow> bool" where
  "checkbox_disabled it = isSaving it"

definition input_disabled :: "item \<Rightarrow> bool" where
  "input_disabled it = isSaving it"

definition checkbox_opacity_0 :: "heap \<Rightarrow> item \<Rightarrow> bool" where
  "checkbox_opacity_0 h it = (\<not> has_id (h (todo it)))"

text \<open>A freshly mounted instance: \<open>useState(todo.text)\<close>, \<open>useState(false)\<close> twice; the
  deletion effect runs with \<open>isChecked\<close> false and sets nothing.\<close>

definition mount_item :: "heap \<Rightarrow> nat \<Rightarrow> bool \<Rightarrow> ref \<Rightarrow> item" where
  "mount_item h n draft r =
     \<lparr>inst = n, key = (if draft then None else todo_id (h r)), todo = r,
      didCreate = draft, didSave = (\<not> draft), didDestroy = (\<not> draft), autofocus = draft,
      text_buf = todo_text (h r), isSaving = False, isChecked = False,
      timers = [], cleanup = None\<rparr>"

section \<open>The running application\<close>

text \<open>
  The engine, the store, the state of \<open>TodoApp\<close>, the mounted \<open>TodoItem\<close>s (the draft's and
  the collection's, in rendered order), the clock in ms, the next timer id, every request
  issued so far and the requests in flight with their callbacks. \<open>mounted\<close> is whether
  React still has \<open>TodoApp\<close> mounted (React drops state updates of an unmounted component);
  \<open>server\<close> is whether the imported \<open>server\<close> is truthy; \<open>resets\<close> counts the calls of
  \<open>resetDb\<close>.
\<close>

record world =
  engine :: engine
  heap :: heap
  next_ref :: ref
  app :: app
  mounted :: bool
  server :: bool
  resets :: nat
  draft_item :: "item option"
  items :: "item list"
  next_inst :: nat
  next_timer :: nat
  now :: nat
  requests :: "request list"
  pending :: "(request \<times> cont) list"

text \<open>A new object: \<open>{ text: "" }\<close> of the add button, or one parsed from a response.\<close>

definition alloc :: "todo \<Rightarrow> world \<Rightarrow> ref \<times> world" where
  "alloc t w = (next_ref w, w\<lparr>heap := (heap w)(next_ref w := t), next_ref := Suc (next_ref w)\<rparr>)"

fun alloc_all :: "todo list \<Rightarrow> world \<Rightarrow> ref list \<times> world" where
  "alloc_all [] w = ([], w)"
| "alloc_all (t # ts) w =
     (let (r, w1) = alloc t w; (rs, w2) = alloc_all ts w1 in (r # rs, w2))"

definition issue :: "(request \<times> cont) list \<Rightarrow> world \<Rightarrow> world" where
  "issue rs w = w\<lparr>requests := requests w @ map fst rs, pending := pending w @ rs\<rparr>"

definition all_items :: "world \<Rightarrow> item list" where
  "all_items w = (case draft_item w of None \<Rightarrow> [] | Some d \<Rightarrow> [d]) @ items w"

definition find_item :: "nat \<Rightarrow> world \<Rightarrow> item option" where
  "find_item n w = find (\<lambda>it. inst it = n) (all_items w)"

text \<open>A state update of an instance: the instance named is the first one of that name.\<close>

fun put_first :: "item \<Rightarrow> item list \<Rightarrow> item list" where
  "put_first it [] = []"
| "put_first it (x # xs) = (if inst x = inst it then it # xs else x # put_first it xs)"

definition put_item :: "item \<Rightarrow> world \<Rightarrow> world" where
  "put_item it w =
     (case draft_item w of
        None \<Rightarrow> w\<lparr>items := put_first it (items w)\<rparr>
      | Some d \<Rightarrow>
          if inst d = inst it then w\<lparr>draft_item := Some it\<rparr>
          else w\<lparr>items := put_first it (items w)\<rparr>)"

text \<open>\<open>setIsSaving\<close> of an instance; nothing happens when it is no longer mounted.\<close>

definition setIsSaving :: "nat \<Rightarrow> bool \<Rightarrow> world \<Rightarrow> world" where
  "setIsSaving n b w =
     (case find_item n w of None \<Rightarrow> w | Some it \<Rightarrow> put_item (it\<lparr>isSaving := b\<rparr>) w)"

text \<open>
  React matches the keyed children of the list with the mounted instances by key. A
  matched instance keeps its state and gets the new props: \<open>didDestroy\<close> is a new function
  on every render of \<open>TodoApp\<close>, so its deletion effect runs again. A child without a
  match is mounted; an instance without a child is unmounted, which clears its timeout.
  React expects keys to differ: with equal keys the model gives each child the state of the
  first instance of that key. A todo without id gives no key; the model takes the missing
  key as a key of its own. The result is the instances, the next instance name and the
  next timer id.
\<close>

fun reconcile ::
  "nat \<Rightarrow> heap \<Rightarrow> item list \<Rightarrow> nat \<Rightarrow> nat \<Rightarrow> ref list \<Rightarrow> item list \<times> nat \<times> nat" where
  "reconcile time h old n k [] = ([], n, k)"
| "reconcile time h old n k (r # rs) =
     (case find (\<lambda>it. key it = todo_id (h r)) old of
        Some it \<Rightarrow>
          (let (it', k1) = rerun_destroy_effect time k (it\<lparr>todo := r\<rparr>);
               (its, n', k') = reconcile time h old n k1 rs
           in (it' # its, n', k'))
      | None \<Rightarrow>
          (let (its, n', k') = reconcile time h old (Suc n) k rs
           in (mount_item h n False r # its, n', k')))"

text \<open>The draft's \<open>TodoItem\<close> has a fixed place; its effect depends on \<open>todo\<close> alone, since no
  \<open>didDestroy\<close> is passed to it.\<close>

definition reconcile_draft ::
  "nat \<Rightarrow> heap \<Rightarrow> item option \<Rightarrow> nat \<Rightarrow> nat \<Rightarrow> ref option \<Rightarrow> item option \<times> nat \<times> nat" where
  "reconcile_draft time h old n k d =
     (case d of
        None \<Rightarrow> (None, n, k)
      | Some r \<Rightarrow>
          (case old of
             None \<Rightarrow> (Some (mount_item h n True r), Suc n, k)
           | Some it \<Rightarrow>
               if todo it = r then (Some it, n, k)
               else (let (it', k') = rerun_destroy_effect time k (it\<lparr>todo := r\<rparr>)
                     in (Some it', n, k'))))"

text \<open>
  A render of \<open>TodoApp\<close> after its state changed, and what React commits: while loading no
  \<open>TodoItem\<close> is rendered, so every instance is unmounted; otherwise the children (the draft's
  item for \<open>newTodo\<close>, then one item per member of the sorted state array) are matched with
  the instances.
\<close>

definition rerender :: "world \<Rightarrow> world" where
  "rerender w =
     (if \<not> mounted w then w
      else
        (case render (engine w) (heap w) (app w) of
           (None, a) \<Rightarrow> w\<lparr>draft_item := None, items := []\<rparr>
         | (Some children, a) \<Rightarrow>
             (let (d, n1, k1) =
                    reconcile_draft (now w) (heap w) (draft_item w) (next_inst w) (next_timer w)
                      (newTodo a);
                  (its, n2, k2) = reconcile (now w) (heap w) (items w) n1 k1 (todos a)
              in w\<lparr>app := a, draft_item := d, items := its, next_inst := n2, next_timer := k2\<rparr>)))"

text \<open>A state update of \<open>TodoApp\<close>: dropped when it is unmounted, else followed by a render.\<close>

definition set_app :: "(app \<Rightarrow> app) \<Rightarrow> world \<Rightarrow> world" where
  "set_app f w = (if mounted w then rerender (w\<lparr>app := f (app w)\<rparr>) else w)"

text \<open>
  The loading effect, \<open>useEffect(..., [refresh])\<close>: \<open>setIsLoading(true)\<close> and the \<open>fetch\<close>,
  whose callback is \<open>LoadK\<close>; its cleanup is \<open>isMounted.current = false\<close>. React runs the
  effect after the first render, the cleanup and then the effect again after a render in
  which \<open>refresh\<close> has changed, and the cleanup when \<open>TodoApp\<close> is unmounted.
\<close>

definition load_effect :: "world \<Rightarrow> world" where
  "load_effect w = rerender (issue [(GET_todos, LoadK)] (w\<lparr>app := (app w)\<lparr>isLoading := True\<rparr>\<rparr>))"

definition load_cleanup :: "world \<Rightarrow> world" where
  "load_cleanup w = w\<lparr>app := (app w)\<lparr>isMounted := False\<rparr>\<rparr>"

text \<open>\<open>resetApp\<close>: \<open>resetDb()\<close> and \<open>setRefresh(refresh + 1)\<close>, when \<open>server\<close> is truthy.\<close>

definition resetApp :: "world \<Rightarrow> world" where
  "resetApp w =
     (if server w
      then w\<lparr>resets := Suc (resets w), app := (app w)\<lparr>refresh := Suc (refresh (app w))\<rparr>\<rparr>
      else w)"

text \<open>What a response carries: the array of \<open>GET\<close>, one todo, or nothing that is read.\<close>

datatype payload = Todos "todo list" | One todo | NoBody

text \<open>
  The \<open>then\<close> callbacks. A payload of the wrong shape for its request is outside the
  server's contract; the model then runs no callback.
\<close>

definition resolve :: "cont \<Rightarrow> payload \<Rightarrow> world \<Rightarrow> world" where
  "resolve k p w =
     (case (k, p) of
        (LoadK, Todos json) \<Rightarrow>
          (if isMounted (app w)
           then (let (rs, w1) = alloc_all json w
                 in set_app (\<lambda>a. a\<lparr>todos := rs, isLoading := False\<rparr>) w1)
           else w)
      | (CreateK n cb, One t) \<Rightarrow>
          (let (r, w1) = alloc t w; w2 = setIsSaving n False w1
           in if cb then set_app (addTodo r) w2 else w2)
      | (SaveK n cb, One t) \<Rightarrow>
          (let (r, w1) = alloc t w; w2 = setIsSaving n False w1
           in if cb then set_app (updateTodo (heap w2) r) w2 else w2)
      | (DestroyK n cb r, _) \<Rightarrow>
          (let w2 = setIsSaving n False w
           in if cb then set_app (removeTodo (heap w2) r) w2 else w2)
      | _ \<Rightarrow> w)"

definition remove_nth :: "nat \<Rightarrow> 'a list \<Rightarrow> 'a list" where
  "remove_nth i xs = take i xs @ drop (Suc i) xs"

text \<open>
  The events of a session. Items are named by instance. \<open>Change\<close> and \<open>Check\<close> come from
  controls that are disabled while saving, and a disabled control dispatches nothing;
  \<open>Submit\<close> is the form's \<open>onSubmit\<close> or the input's \<open>onBlur\<close>, which calls \<open>handleSubmit\<close>.
  \<open>Elapse d\<close> lets \<open>d\<close> ms pass and fires the timeouts that fall due. \<open>Respond i p\<close> resolves
  the \<open>i\<close>-th request in flight with payload \<open>p\<close>; \<open>Reject i\<close> rejects it, and no callback
  runs.
\<close>

datatype event =
    ClickAdd
  | ClickReset
  | Unmount
  | Change nat string
  | Submit nat
  | Check nat bool
  | Elapse nat
  | Respond nat payload
  | Reject nat

text \<open>
  The timeouts that are due at \<open>time\<close>, as (due time, timer id, instance), in the order in
  which they fire: by due time, and in the order of their \<open>setTimeout\<close> calls when due
  together (\<open>sort_key\<close> is stable).
\<close>

definition due_timers :: "nat \<Rightarrow> world \<Rightarrow> (nat \<times> nat \<times> nat) list" where
  "due_timers time w =
     sort_key (\<lambda>(due, k, n). due)
       (sort_key (\<lambda>(due, k, n). k)
          (concat (map (\<lambda>it. map (\<lambda>(k, due). (due, k, inst it))
                                 (filter (\<lambda>(k, due). due \<le> time) (timers it)))
                       (all_items w))))"

text \<open>A timeout fires: it is no longer pending, and its callback calls \<open>destroyTodo\<close>.\<close>

definition fire_timer :: "nat \<Rightarrow> nat \<Rightarrow> world \<Rightarrow> world" where
  "fire_timer k n w =
     (case find_item n w of
        None \<Rightarrow> w
      | Some it \<Rightarrow>
          (let (it', r) = destroyTodo (heap w) (it\<lparr>timers := filter (\<lambda>(j, due). j \<noteq> k) (timers it)\<rparr>)
           in issue [r] (put_item it' w)))"

fun fire_timers :: "(nat \<times> nat \<times> nat) list \<Rightarrow> world \<Rightarrow> world" where
  "fire_timers [] w = w"
| "fire_timers ((due, k, n) # ts) w = fire_timers ts (fire_timer k n w)"

definition elapse :: "nat \<Rightarrow> world \<Rightarrow> world" where
  "elapse d w = (fire_timers (due_timers (now w + d) w) w)\<lparr>now := now w + d\<rparr>"

fun step :: "event \<Rightarrow> world \<Rightarrow> world" where
  "step ClickAdd w =
     (if mounted w \<and> \<not> isLoading (app w)
      then (let (r, w1) = alloc \<lparr>todo_id = None, todo_text = [], todo_createdAt = None\<rparr> w
            in set_app (\<lambda>a. a\<lparr>newTodo := Some r\<rparr>) w1)
      else w)"
| "step ClickReset w =
     (if mounted w
      then (let w1 = resetApp w
            in if refresh (app w1) = refresh (app w) then w1
               else load_effect (load_cleanup (rerender w1)))
      else w)"
| "step Unmount w =
     (if mounted w
      then (load_cleanup w)\<lparr>mounted := False, draft_item := None, items := []\<rparr>
      else w)"
| "step (Change n s) w =
     (case find_item n w of
        None \<Rightarrow> w
      | Some it \<Rightarrow> if input_disabled it then w else put_item (it\<lparr>text_buf := s\<rparr>) w)"
| "step (Submit n) w =
     (case find_item n w of
        None \<Rightarrow> w
      | Some it \<Rightarrow>
          (let (h, it', rs) = handleSubmit (now w) (heap w) it
           in issue rs (put_item it' (w\<lparr>heap := h\<rparr>))))"
| "step (Check n c) w =
     (case find_item n w of
        None \<Rightarrow> w
      | Some it \<Rightarrow>
          if checkbox_disabled it then w
          else (let (it', k) = handleCheckboxChange c (now w) (next_timer w) it
                in put_item it' (w\<lparr>next_timer := k\<rparr>)))"
| "step (Elapse d) w = elapse d w"
| "step (Respond i p) w =
     (if i < length (pending w)
      then resolve (snd (pending w ! i)) p (w\<lparr>pending := remove_nth i (pending w)\<rparr>)
      else w)"
| "step (Reject i) w = w\<lparr>pending := remove_nth i (pending w)\<rparr>"

fun run :: "event list \<Rightarrow> world \<Rightarrow> world" where
  "run [] w = w"
| "run (e # es) w = run es (step e w)"

text \<open>
  The application when it is mounted: the initial states of the hooks, no object, no
  request. After the first render React runs the loading effect.
\<close>

definition first_render :: "bool \<Rightarrow> engine \<Rightarrow> world" where
  "first_render srv eng =
     \<lparr>engine = eng,
      heap = (\<lambda>_. \<lparr>todo_id = None, todo_text = [], todo_createdAt = None\<rparr>), next_ref = 0,
      app = \<lparr>isLoading = False, todos = [], newTodo = None, refresh = 0, isMounted = True\<rparr>,
      mounted = True, server = srv, resets = 0, draft_item = None, items = [],
      next_inst = 0, next_timer = 0, now = 0, requests = [], pending = []\<rparr>"

definition init :: "bool \<Rightarrow> engine \<Rightarrow> world" where
  "init srv eng = load_effect (first_render srv eng)"

section \<open>Notions used to state the properties\<close>

text \<open>The numeric value of the identifier of a todo: what the comparator of the render
  compares.\<close>

definition id_number :: "engine \<Rightarrow> heap \<Rightarrow> ref \<Rightarrow> number" where
  "id_number eng h r = Number_id eng (todo_id (h r))"

text \<open>The collection as values: what the members of \<open>todos\<close> hold in the store.\<close>

definition collection :: "world \<Rightarrow> todo list" where
  "collection w = map (heap w) (todos (app w))"

text \<open>Every member of the collection is an object that has been allocated.\<close>

definition members_allocated :: "world \<Rightarrow> bool" where
  "members_allocated w = (\<forall>r \<in> set (todos (app w)). r < next_ref w)"

section \<open>Concrete states and sessions\<close>

text \<open>Three todos with the ids "9", "10" and "2", and a draft.\<close>

definition order_heap :: heap where
  "order_heap r =
     \<lparr>todo_id = (if r = 0 then Some ''9'' else if r = 1 then Some ''10''
                 else if r = 2 then Some ''2'' else None),
      todo_text = [], todo_createdAt = None\<rparr>"

definition order_app :: app where
  "order_app = \<lparr>isLoading = False, todos = [0, 1, 2], newTodo = Some 3, refresh = 0, isMounted = True\<rparr>"

text \<open>
  Two todos with the ids "9007199254740992" and "9007199254740993", that is \<open>2 ^ 53\<close> and
  \<open>2 ^ 53 + 1\<close>, loaded in this order and in the other one.
\<close>

definition tie_heap :: heap where
  "tie_heap r =
     \<lparr>todo_id = (if r = 0 then Some ''9007199254740992'' else if r = 1 then Some ''9007199254740993''
                 else None),
      todo_text = [], todo_createdAt = None\<rparr>"

definition tie_app :: "ref list \<Rightarrow> app" where
  "tie_app ts = \<lparr>isLoading = False, todos = ts, newTodo = None, refresh = 0, isMounted = True\<rparr>"

text \<open>A collection of two todos with the ids "1" and "2"; every other object has the id "3".\<close>

definition frame_heap :: heap where
  "frame_heap r = \<lparr>todo_id = Some (if r = 0 then ''1'' else if r = 1 then ''2'' else ''3''),
                   todo_text = [], todo_createdAt = None\<rparr>"

definition frame_app :: app where
  "frame_app = \<lparr>isLoading = False, todos = [0, 1], newTodo = None, refresh = 0, isMounted = True\<rparr>"

text \<open>Three todos as a server sends them, and the application after its first load, on
  any engine.\<close>

definition todo_A :: todo where
  "todo_A = \<lparr>todo_id = Some ''1'', todo_text = ''A'', todo_createdAt = None\<rparr>"

definition todo_B :: todo where
  "todo_B = \<lparr>todo_id = Some ''2'', todo_text = ''B'', todo_createdAt = None\<rparr>"

definition todo_C :: todo where
  "todo_C = \<lparr>todo_id = Some ''3'', todo_text = ''C'', todo_createdAt = Some 7\<rparr>"

definition loaded :: "engine \<Rightarrow> world" where
  "loaded eng = step (Respond 0 (Todos [todo_B, todo_A])) (init True eng)"

text \<open>Reset after the first load; the reload then resolves with one todo.\<close>

definition reset_session :: "event list" where
  "reset_session = [ClickReset, Respond 0 (Todos [todo_C])]"

text \<open>Add a draft, check its checkbox and wait for the delay.\<close>

definition draft_check_session :: "event list" where
  "draft_check_session = [ClickAdd, Check 2 True, Elapse 1250]"

text \<open>Check the first item, add a draft after 1000 ms, wait 300 ms more; then uncheck and
  wait.\<close>

definition restart_session :: "event list" where
  "restart_session = [Check 0 True, Elapse 1000, ClickAdd, Elapse 300]"

definition restart_off_session :: "event list" where
  "restart_off_session = restart_session @ [Check 0 False, Elapse 5000]"

text \<open>Check the first item and wait for the delay; then add a draft while the \<open>DELETE\<close> is
  in flight, and wait for the delay once more.\<close>

definition delete_session :: "event list" where
  "delete_session = [Check 0 True, Elapse 1250]"

definition delete_twice_session :: "event list" where
  "delete_twice_session = delete_session @ [ClickAdd, Elapse 1250]"

text \<open>Add a draft, type, and commit; then commit once more while the request is in flight.\<close>

definition submit_session :: "event list" where
  "submit_session = [ClickAdd, Change 2 ''C'', Submit 2]"

definition submit_twice_session :: "event list" where
  "submit_twice_session = submit_session @ [Submit 2]"

text \<open>Edit the text of the todo "1" and commit; the request stays in flight.\<close>

definition edit_session :: "event list" where
  "edit_session = [Change 1 ''AA'', Submit 1]"

text \<open>The states and instances that the sessions above go through.\<close>

definition todo_AA :: todo where
  "todo_AA = todo_A\<lparr>todo_text := ''AA''\<rparr>"

definition item_A :: item where
  "item_A = mount_item (\<lambda>_. todo_A) 1 False 1"

definition item_B :: item where
  "item_B = mount_item (\<lambda>_. todo_B) 0 False 0"

definition item_AA :: item where
  "item_AA = item_A\<lparr>text_buf := ''AA''\<rparr>"

definition draft_C :: item where
  "draft_C = (mount_item (\<lambda>_. \<lparr>todo_id = None, todo_text = [], todo_createdAt = None\<rparr>) 2 True 2)
               \<lparr>text_buf := ''C''\<rparr>"

definition drafting :: "engine \<Rightarrow> world" where
  "drafting eng = run [ClickAdd, Change 2 ''C''] (loaded eng)"

definition submitted :: "engine \<Rightarrow> world" where
  "submitted eng = step (Submit 2) (drafting eng)"

definition typed :: "engine \<Rightarrow> world" where
  "typed eng = run [Change 1 ''AA''] (loaded eng)"

definition saving :: "engine \<Rightarrow> world" where
  "saving eng = step (Submit 1) (typed eng)"

definition torn_down :: "engine \<Rightarrow> world" where
  "torn_down eng = run [Elapse 100] (step Unmount (init True eng))"

section \<open>Theorems\<close>

subsection \<open>Numbers and the sort\<close>

declare binary_shift.simps [simp del]

lemma binary_shift_small: "n < 2 ^ 53 \<Longrightarrow> binary_shift n = 0"
  by (simp add: binary_shift.simps [of n])

lemma binary_shift_53: "binary_shift 9007199254740992 = Suc 0"
  by (simp add: binary_shift.simps [of 9007199254740992] binary_shift.simps [of 4503599627370496])

lemma small_finite: "n < 2 ^ 53 \<Longrightarrow> n < (2::nat) ^ 1024"
  by (rule less_trans [where y = "2 ^ 53"]) simp_all

lemma round_double_small: "n < 2 ^ 53 \<Longrightarrow> round_double n = Fin (of_nat n)"
  unfolding round_double_def Let_def
  by (simp only: binary_shift_small small_finite power_0 div_by_1 mod_by_1 mult_0_right
      mult_1_right if_True if_False zero_neq_one less_numeral_extra simp_thms)

lemma round_double_53: "round_double 9007199254740992 = Fin 9007199254740992"
  unfolding round_double_def binary_shift_53 Let_def by simp

lemma round_double_exact: "n \<le> 2 ^ 53 \<Longrightarrow> round_double n = Fin (of_nat n)"
proof (cases "n < 2 ^ 53")
  case True
  then show ?thesis by (rule round_double_small)
next
  case False
  assume "n \<le> 2 ^ 53"
  with False have n: "n = 9007199254740992" by simp
  show ?thesis unfolding n round_double_53 by simp
qed

lemma js_gt_total: "x \<noteq> NaN \<Longrightarrow> y \<noteq> NaN \<Longrightarrow> x \<noteq> y \<Longrightarrow> js_gt x y \<or> js_gt y x"
  by (cases x; cases y) (auto simp: js_gt_def)

lemma js_gt_asym: "js_gt x y \<Longrightarrow> \<not> js_gt y x"
  by (cases x; cases y) (auto simp: js_gt_def)

lemma js_gt_trans: "js_gt x y \<Longrightarrow> js_gt y z \<Longrightarrow> js_gt x z"
  by (cases x; cases y; cases z) (auto simp: js_gt_def)

lemma compare_sign:
  "(0 < compare_todos eng h a b) = js_gt (id_number eng h a) (id_number eng h b)"
  "(compare_todos eng h a b < 0) = (\<not> js_gt (id_number eng h a) (id_number eng h b))"
  "(0 \<le> compare_todos eng h a b) = js_gt (id_number eng h a) (id_number eng h b)"
  by (simp_all add: compare_todos_def id_number_def)

lemma set_insert_by: "set (insert_by cmp x ys) = insert x (set ys)"
  by (induction ys) auto

lemma set_insertion_sort: "set (insertion_sort cmp xs) = set xs"
  by (induction xs) (simp_all add: set_insert_by)

lemma sorted_insert_by:
  assumes "sorted_wrt R ys"
    and "\<forall>y \<in> set ys. 0 < cmp x y \<longrightarrow> R y x"
    and "\<forall>y \<in> set ys. \<not> 0 < cmp x y \<longrightarrow> R x y"
    and "\<forall>y \<in> set ys. \<forall>z \<in> set ys. R x y \<longrightarrow> R y z \<longrightarrow> R x z"
  shows "sorted_wrt R (insert_by cmp x ys)"
  using assms
proof (induction ys)
  case Nil
  then show ?case by simp
next
  case (Cons y ys)
  have tail: "sorted_wrt R ys" and head: "\<forall>z \<in> set ys. R y z"
    using Cons.prems(1) by simp_all
  show ?case
  proof (cases "0 < cmp x y")
    case True
    have "sorted_wrt R (insert_by cmp x ys)"
    proof (rule Cons.IH [OF tail])
      show "\<forall>y \<in> set ys. 0 < cmp x y \<longrightarrow> R y x" using Cons.prems(2) by (meson list.set_intros(2))
      show "\<forall>y \<in> set ys. \<not> 0 < cmp x y \<longrightarrow> R x y" using Cons.prems(3) by (meson list.set_intros(2))
      show "\<forall>y \<in> set ys. \<forall>z \<in> set ys. R x y \<longrightarrow> R y z \<longrightarrow> R x z"
        using Cons.prems(4) by (meson list.set_intros(2))
    qed
    moreover have "R y x" using Cons.prems(2) True by (meson list.set_intros(1))
    ultimately show ?thesis using True head by (simp add: set_insert_by)
  next
    case False
    then have xy: "R x y" using Cons.prems(3) by (meson list.set_intros(1))
    have "\<forall>z \<in> set ys. R x z"
    proof
      fix z assume z: "z \<in> set ys"
      then have "R y z" using head by simp
      then show "R x z" using xy z Cons.prems(4) by (meson list.set_intros)
    qed
    then show ?thesis using False Cons.prems(1) xy by simp
  qed
qed

lemma ascending_insertion_sort:
  assumes "\<forall>r \<in> set xs. id_number eng h r \<noteq> NaN"
    and "distinct (map (id_number eng h) xs)"
  shows "sorted_wrt (\<lambda>x y. js_gt (id_number eng h y) (id_number eng h x))
           (insertion_sort (compare_todos eng h) xs)"
  using assms
proof (induction xs)
  case Nil
  then show ?case by simp
next
  case (Cons x xs)
  let ?R = "\<lambda>x y. js_gt (id_number eng h y) (id_number eng h x)"
  let ?ys = "insertion_sort (compare_todos eng h) xs"
  have s: "sorted_wrt ?R ?ys" using Cons by simp
  have total: "js_gt (id_number eng h x) (id_number eng h y)
        \<or> js_gt (id_number eng h y) (id_number eng h x)" if "y \<in> set xs" for y
  proof -
    have "id_number eng h x \<noteq> id_number eng h y" using Cons.prems(2) that by auto
    moreover have "id_number eng h x \<noteq> NaN" "id_number eng h y \<noteq> NaN"
      using Cons.prems(1) that by simp_all
    ultimately show ?thesis by (intro js_gt_total)
  qed
  have "sorted_wrt ?R (insert_by (compare_todos eng h) x ?ys)"
    using s
  proof (rule sorted_insert_by)
    show "\<forall>y \<in> set ?ys. 0 < compare_todos eng h x y \<longrightarrow> ?R y x"
      by (simp add: compare_sign)
    show "\<forall>y \<in> set ?ys. \<not> 0 < compare_todos eng h x y \<longrightarrow> ?R x y"
      using total by (auto simp: compare_sign set_insertion_sort)
    show "\<forall>y \<in> set ?ys. \<forall>z \<in> set ?ys. ?R x y \<longrightarrow> ?R y z \<longrightarrow> ?R x z"
      using js_gt_trans by blast
  qed
  then show ?case by simp
qed

lemma ordered_by_numbers:
  assumes "\<forall>r \<in> set xs. id_number eng h r \<noteq> NaN"
    and "distinct (map (id_number eng h) xs)"
  shows "ordered_by (compare_todos eng h) xs"
proof -
  have d: "distinct xs" using assms(2) by (simp add: distinct_map)
  have t: "\<forall>x \<in> set xs. \<forall>y \<in> set xs. x = y
      \<or> js_gt (id_number eng h x) (id_number eng h y) \<noteq> js_gt (id_number eng h y) (id_number eng h x)"
  proof (intro ballI)
    fix x y assume xy: "x \<in> set xs" "y \<in> set xs"
    show "x = y
      \<or> js_gt (id_number eng h x) (id_number eng h y) \<noteq> js_gt (id_number eng h y) (id_number eng h x)"
    proof (cases "x = y")
      case False
      then have "id_number eng h x \<noteq> id_number eng h y"
        using assms(2) xy by (auto simp: distinct_map inj_on_def)
      then have "js_gt (id_number eng h x) (id_number eng h y)
        \<or> js_gt (id_number eng h y) (id_number eng h x)"
        using assms(1) xy by (intro js_gt_total) simp_all
      then show ?thesis using js_gt_asym by blast
    qed simp
  qed
  have tr: "\<forall>x \<in> set xs. \<forall>y \<in> set xs. \<forall>z \<in> set xs.
      \<not> js_gt (id_number eng h x) (id_number eng h z)
      \<or> js_gt (id_number eng h x) (id_number eng h y)
      \<or> js_gt (id_number eng h y) (id_number eng h z)"
  proof (intro ballI)
    fix x y z assume xyz: "x \<in> set xs" "y \<in> set xs" "z \<in> set xs"
    show "\<not> js_gt (id_number eng h x) (id_number eng h z)
      \<or> js_gt (id_number eng h x) (id_number eng h y)
      \<or> js_gt (id_number eng h y) (id_number eng h z)"
    proof (cases "x = y \<or> y = z")
      case True
      then show ?thesis by auto
    next
      case False
      then have "js_gt (id_number eng h x) (id_number eng h y) \<noteq> js_gt (id_number eng h y) (id_number eng h x)"
        "js_gt (id_number eng h y) (id_number eng h z) \<noteq> js_gt (id_number eng h z) (id_number eng h y)"
        using t xyz by blast+
      then show ?thesis using js_gt_trans js_gt_asym by blast
    qed
  qed
  show ?thesis
    unfolding ordered_by_def list_all_iff compare_sign
    using d t tr by blast
qed

lemma sorted_wrt_unique:
  assumes "mset xs = mset ys" and "sorted_wrt R xs" and "sorted_wrt R ys"
    and "\<forall>x y. R x y \<longrightarrow> \<not> R y x"
  shows "xs = ys"
  using assms(1,2,3)
proof (induction xs arbitrary: ys)
  case Nil
  then show ?case by simp
next
  case (Cons x xs)
  then obtain y ys' where ys: "ys = y # ys'" by (cases ys) auto
  have "x = y"
  proof (rule ccontr)
    assume ne: "x \<noteq> y"
    have "x \<in> set ys" using Cons.prems(1) by (metis list.set_intros(1) set_mset_mset)
    then have "x \<in> set ys'" using ne ys by simp
    then have "R y x" using Cons.prems(3) ys by simp
    have "y \<in> set (x # xs)" using Cons.prems(1) ys by (metis list.set_intros(1) set_mset_mset)
    then have "y \<in> set xs" using ne by simp
    then have "R x y" using Cons.prems(2) by simp
    then show False using \<open>R y x\<close> assms(4) by blast
  qed
  moreover have "xs = ys'"
    using Cons.prems ys \<open>x = y\<close> by (intro Cons.IH) simp_all
  ultimately show ?case using ys by simp
qed

lemma mset_insert_by: "mset (insert_by cmp x ys) = add_mset x (mset ys)"
  by (induction ys) auto

lemma mset_insertion_sort: "mset (insertion_sort cmp xs) = mset xs"
  by (induction xs) (auto simp: mset_insert_by)

lemma mset_permute: "mset (permute p xs) = mset xs"
proof (cases "sort p = [0 ..< length xs]")
  case True
  then have "mset p = mset [0 ..< length xs]" by (metis mset_sort)
  then have "mset (map (\<lambda>i. xs ! i) p) = mset (map (\<lambda>i. xs ! i) [0 ..< length xs])"
    by (metis mset_map)
  then show ?thesis using True by (simp add: permute_def map_nth)
next
  case False
  then show ?thesis by (simp add: permute_def)
qed

lemma mset_array_sort: "mset (array_sort eng cmp xs) = mset xs"
  by (simp add: array_sort_def mset_insertion_sort mset_permute)

lemma mset_sorted_todos: "mset (sorted_todos eng h ts) = mset ts"
  by (simp add: sorted_todos_def mset_array_sort)

subsection \<open>Display order\<close>

text \<open>
  Claim C1, as amended. When the list is shown (not loading), every todo of the collection
  has an identifier that \<open>Number\<close> converts to a number, and no two identifiers convert
  to the same number, then the state array after the render is the collection in
  descending order of these numbers, and the rendered children are the draft's item
  first, when there is a draft, and then the items of the collection in that order: the
  list that the render shows is the one arrangement of the collection that is strictly
  descending by the numeric value of the identifier. This holds on every engine.
\<close>

theorem display_order:
  assumes "\<not> isLoading a"
    and "\<forall>r \<in> set (todos a). has_id (h r) \<and> id_number eng h r \<noteq> NaN"
    and "distinct (map (id_number eng h) (todos a))"
  shows "mset (sorted_todos eng h (todos a)) = mset (todos a)
         \<and> sorted_wrt (\<lambda>x y. js_gt (id_number eng h x) (id_number eng h y))
             (sorted_todos eng h (todos a))
         \<and> (\<forall>ys. mset ys = mset (todos a)
                  \<and> sorted_wrt (\<lambda>x y. js_gt (id_number eng h x) (id_number eng h y)) ys
               \<longrightarrow> fst (render eng h a)
                     = Some ((case newTodo a of None \<Rightarrow> [] | Some d \<Rightarrow> [DraftItem d])
                             @ map ListItem ys))"
proof -
  let ?D = "\<lambda>x y. js_gt (id_number eng h x) (id_number eng h y)"
  have n: "\<forall>r \<in> set (todos a). id_number eng h r \<noteq> NaN" using assms(2) by blast
  have eq: "sorted_todos eng h (todos a) = rev (insertion_sort (compare_todos eng h) (todos a))"
    using ordered_by_numbers [OF n assms(3)] by (simp add: sorted_todos_def array_sort_def)
  have m: "mset (sorted_todos eng h (todos a)) = mset (todos a)"
    by (rule mset_sorted_todos)
  have s: "sorted_wrt ?D (sorted_todos eng h (todos a))"
    unfolding eq sorted_wrt_rev using ascending_insertion_sort [OF n assms(3)] .
  have "fst (render eng h a)
          = Some ((case newTodo a of None \<Rightarrow> [] | Some d \<Rightarrow> [DraftItem d]) @ map ListItem ys)"
    if "mset ys = mset (todos a)" and "sorted_wrt ?D ys" for ys
  proof -
    have "mset ys = mset (sorted_todos eng h (todos a))" using that(1) m by simp
    then have "ys = sorted_todos eng h (todos a)"
      using that(2) s
    proof (rule sorted_wrt_unique)
      show "\<forall>x y. ?D x y \<longrightarrow> \<not> ?D y x" using js_gt_asym by blast
    qed
    then show ?thesis using assms(1) by (simp add: render_def)
  qed
  then have "\<forall>ys. mset ys = mset (todos a) \<and> sorted_wrt ?D ys
      \<longrightarrow> fst (render eng h a)
            = Some ((case newTodo a of None \<Rightarrow> [] | Some d \<Rightarrow> [DraftItem d]) @ map ListItem ys)"
    by (intro allI impI) (elim conjE)
  then show ?thesis using m s by (intro conjI)
qed

lemma order_ids:
  "id_number eng order_heap 0 = Fin 9" "id_number eng order_heap (Suc 0) = Fin 10"
  "id_number eng order_heap 2 = Fin 2"
  "has_id (order_heap 0)" "has_id (order_heap (Suc 0))" "has_id (order_heap 2)"
  by (simp_all add: id_number_def has_id_def order_heap_def Number_id_def digit_of_def
      round_double_small)

theorem display_order_witness:
  "\<forall>eng. fst (render eng order_heap order_app)
            = Some [DraftItem 3, ListItem 1, ListItem 0, ListItem 2]"
proof
  fix eng
  have "\<not> isLoading order_app" by (simp add: order_app_def)
  moreover have "\<forall>r \<in> set (todos order_app). has_id (order_heap r) \<and> id_number eng order_heap r \<noteq> NaN"
    by (simp add: order_app_def order_ids)
  moreover have "distinct (map (id_number eng order_heap) (todos order_app))"
    by (simp add: order_app_def order_ids)
  moreover have "mset [1, 0, 2] = mset (todos order_app)"
    by (simp add: order_app_def)
  moreover have "sorted_wrt (\<lambda>x y. js_gt (id_number eng order_heap x) (id_number eng order_heap y))
      [1, 0, 2]"
    by (simp add: order_ids js_gt_def)
  ultimately have "fst (render eng order_heap order_app)
           = Some ((case newTodo order_app of None \<Rightarrow> [] | Some d \<Rightarrow> [DraftItem d])
                   @ map ListItem [1, 0, 2])"
    using display_order [of order_app order_heap eng] by blast
  then show "fst (render eng order_heap order_app)
            = Some [DraftItem 3, ListItem 1, ListItem 0, ListItem 2]"
    by (simp add: order_app_def)
qed

lemma binary_shift_odd: "binary_shift 9007199254740993 = Suc 0"
  by (simp add: binary_shift.simps [of 9007199254740993] binary_shift.simps [of 4503599627370496])

lemma round_double_odd: "round_double 9007199254740993 = Fin 9007199254740992"
  unfolding round_double_def binary_shift_odd Let_def by simp

lemma tie_ids:
  "id_number eng tie_heap 0 = Fin 9007199254740992"
  "id_number eng tie_heap (Suc 0) = Fin 9007199254740992"
  "has_id (tie_heap 0)" "has_id (tie_heap (Suc 0))"
  by (simp_all add: id_number_def has_id_def tie_heap_def Number_id_def digit_of_def
      round_double_53 round_double_odd)

lemma tie_compare:
  "compare_todos eng tie_heap 0 0 = - 1" "compare_todos eng tie_heap 0 (Suc 0) = - 1"
  "compare_todos eng tie_heap (Suc 0) 0 = - 1" "compare_todos eng tie_heap (Suc 0) (Suc 0) = - 1"
  using tie_ids(1,2) [of eng] by (simp_all add: compare_todos_def id_number_def js_gt_def)

lemma tie_sort:
  "sorted_todos eng tie_heap [0, Suc 0]
     = rev (permute (engine_sort eng [[- 1, - 1], [- 1, - 1]]) [0, Suc 0])"
  "sorted_todos eng tie_heap [Suc 0, 0]
     = rev (permute (engine_sort eng [[- 1, - 1], [- 1, - 1]]) [Suc 0, 0])"
  by (simp_all add: sorted_todos_def array_sort_def ordered_by_def tie_compare)

lemma sort_two:
  assumes "sort p = [0, Suc 0]"
  shows "p = [0, Suc 0] \<or> p = [Suc 0, 0]"
proof -
  have "length p = 2" using assms by (metis length_sort length_Cons list.size(3) numeral_2_eq_2)
  then obtain a b where p: "p = [a, b]"
    by (metis (no_types) length_0_conv length_Suc_conv numeral_2_eq_2)
  show ?thesis using assms unfolding p by (auto split: if_splits)
qed

lemma permute_two:
  "permute p [a, b] = [a, b] \<and> permute p [b, a] = [b, a]
   \<or> permute p [a, b] = [b, a] \<and> permute p [b, a] = [a, b]"
proof (cases "sort p = [0, Suc 0]")
  case True
  then have "p = [0, Suc 0] \<or> p = [Suc 0, 0]" by (rule sort_two)
  then show ?thesis by (auto simp: permute_def upt_rec)
next
  case False
  then show ?thesis by (simp add: permute_def upt_rec)
qed

text \<open>
  Claim C1 fails when two identifiers convert to the same number. The ids
  "9007199254740992" and "9007199254740993" both convert to \<open>2 ^ 53\<close>, the comparator answers
  \<open>-1\<close> whichever way the two are compared, and the order is the engine's choice. Whatever
  the engine, one of the two load orders is not shown in descending order of the
  identifiers: the todo "9007199254740992" is shown above "9007199254740993".
\<close>

theorem equal_numbers_shown_ascending:
  "\<forall>eng. has_id (tie_heap 0) \<and> has_id (tie_heap 1)
     \<and> id_number eng tie_heap 0 = id_number eng tie_heap 1
     \<and> \<not> (fst (render eng tie_heap (tie_app [0, 1])) = Some [ListItem 1, ListItem 0]
            \<and> fst (render eng tie_heap (tie_app [1, 0])) = Some [ListItem 1, ListItem 0])"
proof
  fix eng
  have "sorted_todos eng tie_heap [0, Suc 0] \<noteq> [Suc 0, 0]
        \<or> sorted_todos eng tie_heap [Suc 0, 0] \<noteq> [Suc 0, 0]"
    unfolding tie_sort
    using permute_two [of "engine_sort eng [[- 1, - 1], [- 1, - 1]]" 0 "Suc 0"] by auto
  then have "\<not> (fst (render eng tie_heap (tie_app [0, 1])) = Some [ListItem 1, ListItem 0]
            \<and> fst (render eng tie_heap (tie_app [1, 0])) = Some [ListItem 1, ListItem 0])"
    by (auto simp: render_def tie_app_def)
  then show "has_id (tie_heap 0) \<and> has_id (tie_heap 1)
     \<and> id_number eng tie_heap 0 = id_number eng tie_heap 1
     \<and> \<not> (fst (render eng tie_heap (tie_app [0, 1])) = Some [ListItem 1, ListItem 0]
            \<and> fst (render eng tie_heap (tie_app [1, 0])) = Some [ListItem 1, ListItem 0])"
    by (simp add: tie_ids)
qed

subsection \<open>Frame of update and remove\<close>

lemma updateTodo_length: "length (todos (updateTodo h t a)) = length (todos a)"
  by (simp add: updateTodo_def)

lemma updateTodo_nth:
  "i < length (todos a) \<Longrightarrow> todo_id (h (todos a ! i)) \<noteq> todo_id (h t)
   \<Longrightarrow> todos (updateTodo h t a) ! i = todos a ! i"
  by (simp add: updateTodo_def)

lemma map_none_id: "\<forall>x \<in> set xs. \<not> P x \<Longrightarrow> map (\<lambda>x. if P x then y else x) xs = xs"
  by (induction xs) auto

lemma updateTodo_no_match:
  "\<forall>g \<in> set (todos a). todo_id (h g) \<noteq> todo_id (h t) \<Longrightarrow> updateTodo h t a = a"
  by (simp add: updateTodo_def map_none_id)

lemma removeTodo_no_match:
  "\<forall>g \<in> set (todos a). todo_id (h g) \<noteq> todo_id (h t) \<Longrightarrow> removeTodo h t a = a"
  by (simp add: removeTodo_def)

lemma count_list_filter: "P g \<Longrightarrow> count_list (filter P xs) g = count_list xs g"
  by (induction xs) auto

lemma removeTodo_keeps:
  "todo_id (h g) \<noteq> todo_id (h t)
   \<Longrightarrow> count_list (todos (removeTodo h t a)) g = count_list (todos a) g"
  by (simp add: removeTodo_def count_list_filter)

text \<open>
  Claim C10. \<open>updateTodo\<close> keeps the length of the collection and every member whose id
  differs from the argument's, at its position; \<open>removeTodo\<close> keeps every member whose id
  differs, as often as it occurred and in the same order; when no member has the
  argument's id, both return the state they were given.
\<close>

theorem update_remove_frame:
  "length (todos (updateTodo h t a)) = length (todos a)
   \<and> (\<forall>i < length (todos a). todo_id (h (todos a ! i)) \<noteq> todo_id (h t)
         \<longrightarrow> todos (updateTodo h t a) ! i = todos a ! i)
   \<and> (\<forall>g. todo_id (h g) \<noteq> todo_id (h t)
         \<longrightarrow> count_list (todos (removeTodo h t a)) g = count_list (todos a) g)
   \<and> filter (\<lambda>g. todo_id (h g) \<noteq> todo_id (h t)) (todos (removeTodo h t a))
       = filter (\<lambda>g. todo_id (h g) \<noteq> todo_id (h t)) (todos a)
   \<and> ((\<forall>g \<in> set (todos a). todo_id (h g) \<noteq> todo_id (h t))
         \<longrightarrow> updateTodo h t a = a \<and> removeTodo h t a = a)"
proof -
  have "filter (\<lambda>g. todo_id (h g) \<noteq> todo_id (h t)) (todos (removeTodo h t a))
       = filter (\<lambda>g. todo_id (h g) \<noteq> todo_id (h t)) (todos a)"
    by (simp add: removeTodo_def)
  then show ?thesis
    using updateTodo_length updateTodo_nth removeTodo_keeps updateTodo_no_match
      removeTodo_no_match by blast
qed

theorem update_remove_frame_witness:
  "todo_id (frame_heap 0) \<noteq> todo_id (frame_heap 1)
   \<and> todos (updateTodo frame_heap 1 frame_app) ! 0 = todos frame_app ! 0
   \<and> count_list (todos (removeTodo frame_heap 1 frame_app)) 0 = count_list (todos frame_app) 0
   \<and> updateTodo frame_heap 2 frame_app = frame_app
   \<and> removeTodo frame_heap 2 frame_app = frame_app"
proof -
  have a: "todo_id (frame_heap 0) \<noteq> todo_id (frame_heap 1)"
    by (simp add: frame_heap_def)
  have b: "\<forall>g \<in> set (todos frame_app). todo_id (frame_heap g) \<noteq> todo_id (frame_heap 2)"
    by (simp add: frame_heap_def frame_app_def)
  have c: "0 < length (todos frame_app)" "todos frame_app ! 0 = 0"
    by (simp_all add: frame_app_def)
  note one = update_remove_frame [of frame_heap 1 frame_app]
  note two = update_remove_frame [of frame_heap 2 frame_app]
  have "todos (updateTodo frame_heap 1 frame_app) ! 0 = todos frame_app ! 0"
    using one a c by metis
  moreover have "count_list (todos (removeTodo frame_heap 1 frame_app)) 0
      = count_list (todos frame_app) 0"
    using one a by blast
  moreover have "updateTodo frame_heap 2 frame_app = frame_app \<and> removeTodo frame_heap 2 frame_app = frame_app"
    using two b by blast
  ultimately show ?thesis using a by blast
qed

subsection \<open>What each operation leaves alone\<close>

lemma alloc_fields:
  "fst (alloc t w) = next_ref w"
  "heap (snd (alloc t w)) = (heap w)(next_ref w := t)"
  "next_ref (snd (alloc t w)) = Suc (next_ref w)"
  "app (snd (alloc t w)) = app w"
  "mounted (snd (alloc t w)) = mounted w"
  "pending (snd (alloc t w)) = pending w"
  "requests (snd (alloc t w)) = requests w"
  "draft_item (snd (alloc t w)) = draft_item w"
  "items (snd (alloc t w)) = items w"
  "now (snd (alloc t w)) = now w"
  "engine (snd (alloc t w)) = engine w"
  by (simp_all add: alloc_def)

lemma alloc_all_frame:
  "app (snd (alloc_all ts w)) = app w \<and> mounted (snd (alloc_all ts w)) = mounted w
   \<and> pending (snd (alloc_all ts w)) = pending w \<and> requests (snd (alloc_all ts w)) = requests w
   \<and> draft_item (snd (alloc_all ts w)) = draft_item w \<and> items (snd (alloc_all ts w)) = items w
   \<and> now (snd (alloc_all ts w)) = now w
   \<and> next_ref (snd (alloc_all ts w)) = next_ref w + length ts"
  by (induction ts arbitrary: w) (simp_all add: Let_def split_def alloc_fields)

lemmas alloc_all_fields = alloc_all_frame [THEN conjunct1]
  alloc_all_frame [THEN conjunct2, THEN conjunct1]
  alloc_all_frame [THEN conjunct2, THEN conjunct2, THEN conjunct1]
  alloc_all_frame [THEN conjunct2, THEN conjunct2, THEN conjunct2, THEN conjunct1]
  alloc_all_frame [THEN conjunct2, THEN conjunct2, THEN conjunct2, THEN conjunct2, THEN conjunct1]
  alloc_all_frame [THEN conjunct2, THEN conjunct2, THEN conjunct2, THEN conjunct2, THEN conjunct2, THEN conjunct1]
  alloc_all_frame [THEN conjunct2, THEN conjunct2, THEN conjunct2, THEN conjunct2, THEN conjunct2, THEN conjunct2, THEN conjunct1]
  alloc_all_frame [THEN conjunct2, THEN conjunct2, THEN conjunct2, THEN conjunct2, THEN conjunct2, THEN conjunct2, THEN conjunct2]

lemma rerender_fields:
  "heap (rerender w) = heap w"
  "next_ref (rerender w) = next_ref w"
  "mounted (rerender w) = mounted w"
  "pending (rerender w) = pending w"
  "requests (rerender w) = requests w"
  "now (rerender w) = now w"
  "resets (rerender w) = resets w"
  "engine (rerender w) = engine w"
  by (simp_all add: rerender_def render_def Let_def split_def)

lemma rerender_app:
  "app (rerender w) =
     (app w)\<lparr>todos := (if mounted w \<and> \<not> isLoading (app w)
                         then sorted_todos (engine w) (heap w) (todos (app w))
                         else todos (app w))\<rparr>"
  by (simp add: rerender_def render_def Let_def split_def)

lemma set_app_fields:
  "heap (set_app f w) = heap w"
  "next_ref (set_app f w) = next_ref w"
  "mounted (set_app f w) = mounted w"
  "pending (set_app f w) = pending w"
  "requests (set_app f w) = requests w"
  by (simp_all add: set_app_def rerender_fields)

lemma set_app_app:
  "app (set_app f w) =
     (if mounted w
      then (f (app w))\<lparr>todos := (if \<not> isLoading (f (app w))
                                   then sorted_todos (engine w) (heap w) (todos (f (app w)))
                                   else todos (f (app w)))\<rparr>
      else app w)"
  by (simp add: set_app_def rerender_app rerender_fields)

lemma put_item_fields:
  "heap (put_item it w) = heap w"
  "next_ref (put_item it w) = next_ref w"
  "app (put_item it w) = app w"
  "mounted (put_item it w) = mounted w"
  "pending (put_item it w) = pending w"
  "requests (put_item it w) = requests w"
  "now (put_item it w) = now w"
  "engine (put_item it w) = engine w"
  by (simp_all add: put_item_def split: option.splits)

lemma setIsSaving_fields:
  "heap (setIsSaving n b w) = heap w"
  "next_ref (setIsSaving n b w) = next_ref w"
  "app (setIsSaving n b w) = app w"
  "mounted (setIsSaving n b w) = mounted w"
  "pending (setIsSaving n b w) = pending w"
  "requests (setIsSaving n b w) = requests w"
  "engine (setIsSaving n b w) = engine w"
  by (simp_all add: setIsSaving_def put_item_fields split: option.splits)

lemma issue_fields:
  "heap (issue rs w) = heap w"
  "next_ref (issue rs w) = next_ref w"
  "app (issue rs w) = app w"
  "mounted (issue rs w) = mounted w"
  "pending (issue rs w) = pending w @ rs"
  "requests (issue rs w) = requests w @ map fst rs"
  "draft_item (issue rs w) = draft_item w"
  "items (issue rs w) = items w"
  "now (issue rs w) = now w"
  "resets (issue rs w) = resets w"
  "engine (issue rs w) = engine w"
  by (simp_all add: issue_def)

lemma fire_timer_fields:
  "heap (fire_timer k n w) = heap w"
  "next_ref (fire_timer k n w) = next_ref w"
  "app (fire_timer k n w) = app w"
  "mounted (fire_timer k n w) = mounted w"
  by (simp_all add: fire_timer_def destroyTodo_def issue_fields put_item_fields
      split: option.splits)

lemma fire_timers_frame:
  "heap (fire_timers ts w) = heap w \<and> next_ref (fire_timers ts w) = next_ref w
   \<and> app (fire_timers ts w) = app w \<and> mounted (fire_timers ts w) = mounted w"
  by (induction ts w rule: fire_timers.induct) (simp_all add: fire_timer_fields)

lemma elapse_fields:
  "heap (elapse d w) = heap w"
  "next_ref (elapse d w) = next_ref w"
  "app (elapse d w) = app w"
  "mounted (elapse d w) = mounted w"
  "now (elapse d w) = now w + d"
  by (simp_all add: elapse_def fire_timers_frame)

lemma check_fields:
  "heap (step (Check n c) w) = heap w"
  "next_ref (step (Check n c) w) = next_ref w"
  "app (step (Check n c) w) = app w"
  "mounted (step (Check n c) w) = mounted w"
  by (simp_all add: Let_def split_def put_item_fields split: option.splits)

lemma load_effect_fields:
  "heap (load_effect w) = heap w"
  "next_ref (load_effect w) = next_ref w"
  "mounted (load_effect w) = mounted w"
  "resets (load_effect w) = resets w"
  "pending (load_effect w) = pending w @ [(GET_todos, LoadK)]"
  "requests (load_effect w) = requests w @ [GET_todos]"
  "app (load_effect w) = (app w)\<lparr>isLoading := True\<rparr>"
  by (simp_all add: load_effect_def rerender_fields rerender_app issue_fields)

lemma load_cleanup_fields:
  "heap (load_cleanup w) = heap w"
  "next_ref (load_cleanup w) = next_ref w"
  "mounted (load_cleanup w) = mounted w"
  "resets (load_cleanup w) = resets w"
  "pending (load_cleanup w) = pending w"
  "requests (load_cleanup w) = requests w"
  "app (load_cleanup w) = (app w)\<lparr>isMounted := False\<rparr>"
  by (simp_all add: load_cleanup_def)

lemma reset_fields:
  "heap (step ClickReset w) = heap w"
  "next_ref (step ClickReset w) = next_ref w"
  "mounted (step ClickReset w) = mounted w"
  by (simp_all add: Let_def resetApp_def load_effect_fields load_cleanup_fields rerender_fields)

lemma reset_app:
  "app (step ClickReset w) =
     (if mounted w \<and> server w
      then (app w)\<lparr>refresh := Suc (refresh (app w)), isMounted := False, isLoading := True,
                   todos := (if isLoading (app w) then todos (app w)
                             else sorted_todos (engine w) (heap w) (todos (app w)))\<rparr>
      else app w)"
  by (simp add: Let_def resetApp_def load_effect_fields load_cleanup_fields rerender_fields
      rerender_app)

subsection \<open>A load that resolves after teardown\<close>

lemma reset_isMounted: "\<not> isMounted (app w) \<Longrightarrow> \<not> isMounted (app (step ClickReset w))"
  by (simp add: reset_app del: step.simps)

lemma resolve_isMounted: "\<not> isMounted (app w) \<Longrightarrow> \<not> isMounted (app (resolve k p w))"
  by (cases k; cases p)
     (simp_all add: resolve_def Let_def split_def set_app_app setIsSaving_fields alloc_fields
        addTodo_def updateTodo_def removeTodo_def)

lemma step_isMounted:
  assumes "\<not> isMounted (app w)"
  shows "\<not> isMounted (app (step e w))"
proof (cases e)
  case ClickAdd
  with assms show ?thesis by (simp add: split_def set_app_app alloc_fields)
next
  case ClickReset
  with assms show ?thesis using reset_isMounted by blast
next
  case Unmount
  with assms show ?thesis by (simp add: load_cleanup_def)
next
  case (Change n s)
  with assms show ?thesis by (simp add: put_item_fields split: option.splits)
next
  case (Submit n)
  with assms show ?thesis
    by (simp add: Let_def split_def issue_fields put_item_fields split: option.splits)
next
  case (Check n c)
  with assms show ?thesis by (simp add: check_fields del: step.simps)
next
  case (Elapse d)
  with assms show ?thesis by (simp add: elapse_fields)
next
  case (Respond i p)
  with assms show ?thesis by (simp add: resolve_isMounted)
next
  case (Reject i)
  with assms show ?thesis by simp
qed

lemma run_isMounted: "\<not> isMounted (app w) \<Longrightarrow> \<not> isMounted (app (run es w))"
  by (induction es arbitrary: w) (simp_all add: step_isMounted)

lemma load_discarded:
  "\<not> isMounted (app w) \<Longrightarrow> resolve LoadK p w = w"
  by (cases p) (simp_all add: resolve_def)

text \<open>
  Claim C5. Once \<open>TodoApp\<close> has been torn down, whatever happens next, the result of a
  load that is still in flight is dropped when it arrives: the state is the one before,
  but for the request, which is no longer in flight. Neither \<open>todos\<close> nor \<open>isLoading\<close>
  nor anything else changes.
\<close>

theorem stale_load_discarded:
  assumes "mounted w"
    and "w' = run es (step Unmount w)"
    and "i < length (pending w')"
    and "snd (pending w' ! i) = LoadK"
  shows "step (Respond i p) w' = w'\<lparr>pending := remove_nth i (pending w')\<rparr>"
proof -
  have "\<not> isMounted (app (step Unmount w))"
    using assms(1) by (simp add: load_cleanup_def)
  then have "\<not> isMounted (app w')"
    unfolding assms(2) by (rule run_isMounted)
  then have "\<not> isMounted (app (w'\<lparr>pending := remove_nth i (pending w')\<rparr>))"
    by simp
  then show ?thesis
    using assms(3,4) by (simp add: load_discarded)
qed

subsection \<open>Concrete sessions\<close>

lemmas eval_defs = init_def first_render_def load_effect_def load_cleanup_def render_def
  resolve_def set_app_def rerender_def alloc_def remove_nth_def Let_def
  split_def reconcile_draft_def mount_item_def sorted_todos_def array_sort_def ordered_by_def
  compare_todos_def js_gt_def Number_id_def digit_of_def round_double_small
  resetApp_def issue_def find_item_def all_items_def put_item_def
  setIsSaving_def elapse_def due_timers_def fire_timer_def destroyTodo_def
  handleCheckboxChange_def
  rerun_destroy_effect_def destroy_effect_def destroy_cleanup_def handleSubmit_def createTodo_def
  saveTodo_def has_id_def url_id_def addTodo_def updateTodo_def removeTodo_def
  checkbox_disabled_def input_disabled_def checkbox_opacity_0_def todo_A_def todo_B_def todo_C_def
  collection_def

lemma loaded_eq:
  "loaded eng =
     \<lparr>engine = eng,
      heap = (\<lambda>_. \<lparr>todo_id = None, todo_text = [], todo_createdAt = None\<rparr>)
               (0 := todo_B, Suc 0 := todo_A),
      next_ref = 2,
      app = \<lparr>isLoading = False, todos = [0, 1], newTodo = None, refresh = 0, isMounted = True\<rparr>,
      mounted = True, server = True, resets = 0, draft_item = None,
      items = [mount_item (\<lambda>_. todo_B) 0 False 0, mount_item (\<lambda>_. todo_A) 1 False 1],
      next_inst = 2, next_timer = 0, now = 0, requests = [GET_todos], pending = []\<rparr>"
  unfolding loaded_def by (simp add: eval_defs)

lemma loaded_facts:
  "mounted (loaded eng)" "members_allocated (loaded eng)" "find_item 1 (loaded eng) = Some item_A"
  "find_item 0 (loaded eng) = Some item_B" "collection (loaded eng) = [todo_B, todo_A]"
  "todos (app (loaded eng)) = [0, 1]" "heap (loaded eng) 0 = todo_B"
  "heap (loaded eng) (Suc 0) = todo_A"
  unfolding loaded_eq
  by (simp_all add: members_allocated_def find_item_def all_items_def item_A_def item_B_def
      collection_def mount_item_def)

theorem stale_load_discarded_witness:
  "\<forall>eng. mounted (init True eng)
   \<and> 0 < length (pending (torn_down eng))
   \<and> snd (pending (torn_down eng) ! 0) = LoadK
   \<and> step (Respond 0 (Todos [todo_A])) (torn_down eng) = (torn_down eng)\<lparr>pending := []\<rparr>"
proof
  fix eng
  have p: "pending (torn_down eng) = [(GET_todos, LoadK)]"
    by (simp add: torn_down_def eval_defs)
  have m: "mounted (init True eng)" by (simp add: eval_defs)
  have l: "0 < length (pending (torn_down eng))" "snd (pending (torn_down eng) ! 0) = LoadK"
    by (simp_all add: p)
  have r: "remove_nth 0 (pending (torn_down eng)) = []"
    by (simp add: p remove_nth_def)
  have "step (Respond 0 (Todos [todo_A])) (torn_down eng)
       = (torn_down eng)\<lparr>pending := remove_nth 0 (pending (torn_down eng))\<rparr>"
    using m torn_down_def l by (rule stale_load_discarded)
  then show "mounted (init True eng)
   \<and> 0 < length (pending (torn_down eng))
   \<and> snd (pending (torn_down eng) ! 0) = LoadK
   \<and> step (Respond 0 (Todos [todo_A])) (torn_down eng) = (torn_down eng)\<lparr>pending := []\<rparr>"
    using m l unfolding r by blast
qed

subsection \<open>Reset\<close>

text \<open>
  Claim C8, evaluated on the code. After the first load the collection is "2", "1". Reset
  calls \<open>resetDb\<close> once and issues a second \<open>GET\<close>; when that reload resolves with the todo
  "3", nothing is applied: the collection is still "2", "1" and \<open>isLoading\<close> stays true. The
  cleanup of the loading effect, run because \<open>refresh\<close> changed, has set
  \<open>isMounted.current\<close> to false, and nothing sets it to true again.
\<close>

theorem reset_reload_not_applied:
  "\<forall>eng. resets (run reset_session (loaded eng)) = 1
   \<and> requests (run reset_session (loaded eng)) = [GET_todos, GET_todos]
   \<and> pending (run reset_session (loaded eng)) = []
   \<and> isLoading (app (run reset_session (loaded eng)))
   \<and> collection (run reset_session (loaded eng)) = [todo_B, todo_A]"
  unfolding loaded_eq reset_session_def by (simp add: eval_defs)

text \<open>The same holds after every reset: no later load is ever applied.\<close>

lemma reload_dropped:
  assumes "mounted w" and "server w"
    and "w' = run es (step ClickReset w)"
    and "i < length (pending w')"
    and "snd (pending w' ! i) = LoadK"
  shows "step (Respond i p) w' = w'\<lparr>pending := remove_nth i (pending w')\<rparr>"
proof -
  have "\<not> isMounted (app (step ClickReset w))"
    using assms(1,2) by (simp add: reset_app del: step.simps)
  then have "\<not> isMounted (app w')"
    unfolding assms(3) by (rule run_isMounted)
  then have "\<not> isMounted (app (w'\<lparr>pending := remove_nth i (pending w')\<rparr>))"
    by simp
  then show ?thesis
    using assms(4,5) by (simp add: load_discarded)
qed

subsection \<open>The checkbox of a draft\<close>

text \<open>
  Claim C9, evaluated on the code. The checkbox of the draft is rendered and not
  disabled; only the class \<open>opacity-0\<close> is added. Checking it and waiting 1250 ms issues
  \<open>DELETE /api/todos/undefined\<close>.
\<close>

theorem draft_delete_scheduled:
  "\<forall>eng. map_option (checkbox_disabled) (draft_item (run [ClickAdd] (loaded eng))) = Some False
   \<and> map_option (checkbox_opacity_0 (heap (run [ClickAdd] (loaded eng))))
         (draft_item (run [ClickAdd] (loaded eng)))
       = Some True
   \<and> requests (run draft_check_session (loaded eng)) = [GET_todos, DELETE_todo ''undefined'']"
  unfolding loaded_eq draft_check_session_def by (simp add: eval_defs)

subsection \<open>The countdown of a deletion\<close>

text \<open>
  Claim C2, evaluated on the code. The first item, with the id "2", is checked at time 0.

  In the first session the add button is pressed at 1000 ms: \<open>TodoApp\<close> renders, the item
  gets a new \<open>didDestroy\<close> (\<open>removeTodo\<close> is a new function on every render), and its
  deletion effect, which has \<open>didDestroy\<close> among its dependencies, runs again: the timeout
  is cleared and a new one is set, due at 2250. At 1300 ms the checkbox has been on for
  longer than the delay and no \<open>DELETE\<close> has been issued; unchecked then, none is ever
  issued.

  In the second session the delay elapses and one \<open>DELETE\<close> is issued. While it is in
  flight the add button is pressed: the effect runs again, with \<open>isChecked\<close> still true,
  and sets a new timeout, which issues a second \<open>DELETE\<close> for the same id 1250 ms later.
\<close>

theorem countdown_restarted_by_render:
  "\<forall>eng. now (run restart_session (loaded eng)) = 1300
   \<and> map_option isChecked (find_item 0 (run restart_session (loaded eng))) = Some True
   \<and> map_option timers (find_item 0 (run restart_session (loaded eng))) = Some [(1, 2250)]
   \<and> requests (run restart_session (loaded eng)) = [GET_todos]
   \<and> requests (run restart_off_session (loaded eng)) = [GET_todos]
   \<and> requests (run delete_session (loaded eng)) = [GET_todos, DELETE_todo ''2'']
   \<and> pending (run delete_session (loaded eng)) = [(DELETE_todo ''2'', DestroyK 0 True 0)]
   \<and> requests (run delete_twice_session (loaded eng))
       = [GET_todos, DELETE_todo ''2'', DELETE_todo ''2'']"
  unfolding loaded_eq restart_session_def restart_off_session_def delete_session_def
    delete_twice_session_def
  by (simp add: eval_defs)

subsection \<open>Instances by name\<close>

lemma put_first_same: "find (\<lambda>x. inst x = inst it) xs = Some it \<Longrightarrow> put_first it xs = xs"
  by (induction xs) (auto split: if_splits)

lemma find_inst: "find (\<lambda>x. inst x = n) xs = Some it \<Longrightarrow> inst it = n"
  by (induction xs) (auto split: if_splits)

lemma find_item_inst: "find_item n w = Some it \<Longrightarrow> inst it = n"
  unfolding find_item_def by (rule find_inst)

lemma put_item_same: "find_item n w = Some it \<Longrightarrow> put_item it w = w"
proof -
  assume f: "find_item n w = Some it"
  then have n: "inst it = n" by (rule find_item_inst)
  show ?thesis
  proof (cases "draft_item w")
    case None
    with f n show ?thesis
      by (simp add: find_item_def all_items_def put_item_def put_first_same)
  next
    case (Some d)
    with f n show ?thesis
      by (auto simp: find_item_def all_items_def put_item_def put_first_same split: if_splits)
  qed
qed

lemma find_item_draft: "draft_item w = Some it \<Longrightarrow> find_item (inst it) w = Some it"
  by (simp add: find_item_def all_items_def)

lemma put_item_draft:
  "draft_item w = Some it \<Longrightarrow> inst it' = inst it \<Longrightarrow> draft_item (put_item it' w) = Some it'"
  by (simp add: put_item_def)

lemma find_put_first:
  "find (\<lambda>x. inst x = inst it) xs = Some old
   \<Longrightarrow> find (\<lambda>x. inst x = inst it) (put_first it xs) = Some it"
  by (induction xs) (auto split: if_splits)

lemma find_item_put:
  assumes "find_item (inst it) w = Some old"
  shows "find_item (inst it) (put_item it w) = Some it"
proof (cases "draft_item w")
  case None
  with assms show ?thesis
    by (simp add: find_item_def all_items_def put_item_def find_put_first)
next
  case (Some d)
  with assms show ?thesis
    by (auto simp: find_item_def all_items_def put_item_def find_put_first split: if_splits)
qed

lemma find_item_frame:
  "find_item n (w\<lparr>heap := h\<rparr>) = find_item n w"
  "find_item n (issue rs w) = find_item n w"
  by (simp_all add: find_item_def all_items_def issue_def)

lemma set_sorted_todos: "set (sorted_todos eng h ts) = set ts"
  by (metis mset_sorted_todos set_mset_mset)

lemma map_heap_fresh:
  "members_allocated w \<Longrightarrow> map ((heap w)(next_ref w := t)) (todos (app w)) = collection w"
  by (auto simp: members_allocated_def collection_def)

lemma mset_map_sorted: "mset (map f (sorted_todos eng h ts)) = mset (map f ts)"
  by (metis mset_map mset_sorted_todos)

subsection \<open>Every member is allocated, in every state the application reaches\<close>

lemma alloc_all_refs: "\<forall>r \<in> set (fst (alloc_all ts w)). r < next_ref w + length ts"
proof (induction ts arbitrary: w)
  case Nil
  then show ?case by simp
next
  case (Cons t ts)
  have "\<forall>r \<in> set (fst (alloc_all ts (snd (alloc t w)))). r < Suc (next_ref w) + length ts"
    using Cons.IH [of "snd (alloc t w)"] by (simp add: alloc_fields)
  then show ?case by (auto simp: Let_def split_def alloc_fields)
qed

lemma set_app_allocated:
  assumes "\<forall>r \<in> set (todos (f (app w))). r < next_ref w" and "members_allocated w"
  shows "members_allocated (set_app f w)"
  using assms
  by (auto simp: members_allocated_def set_app_app set_app_fields set_sorted_todos)

lemma members_allocated_cong:
  "app w' = app w \<Longrightarrow> next_ref w \<le> next_ref w' \<Longrightarrow> members_allocated w
   \<Longrightarrow> members_allocated w'"
  by (auto simp: members_allocated_def)

lemma resolve_allocated:
  assumes "members_allocated w"
  shows "members_allocated (resolve k p w)"
proof (cases k)
  case LoadK
  show ?thesis
  proof (cases p)
    case (Todos json)
    have "members_allocated (snd (alloc_all json w))"
      using assms by (rule members_allocated_cong [rotated 2]) (simp_all add: alloc_all_fields)
    moreover have "\<forall>r \<in> set (fst (alloc_all json w)). r < next_ref (snd (alloc_all json w))"
      using alloc_all_refs [of json w] by (simp add: alloc_all_fields)
    ultimately show ?thesis using assms unfolding LoadK Todos
      by (simp add: resolve_def split_def Let_def set_app_allocated)
  qed (simp_all add: resolve_def LoadK assms)
next
  case (CreateK n cb)
  show ?thesis
  proof (cases p)
    case (One t)
    define w2 where "w2 = setIsSaving n False (snd (alloc t w))"
    have a: "app w2 = app w" "next_ref w2 = Suc (next_ref w)"
      by (simp_all add: w2_def setIsSaving_fields alloc_fields)
    have m: "members_allocated w2"
      using assms by (rule members_allocated_cong [rotated 2]) (simp_all add: a)
    have "members_allocated (set_app (addTodo (next_ref w)) w2)"
      using m assms by (intro set_app_allocated) (auto simp: a addTodo_def members_allocated_def)
    then show ?thesis unfolding CreateK One using m
      by (simp add: resolve_def split_def Let_def alloc_fields w2_def)
  qed (simp_all add: resolve_def CreateK assms)
next
  case (SaveK n cb)
  show ?thesis
  proof (cases p)
    case (One t)
    define w2 where "w2 = setIsSaving n False (snd (alloc t w))"
    have a: "app w2 = app w" "next_ref w2 = Suc (next_ref w)"
      by (simp_all add: w2_def setIsSaving_fields alloc_fields)
    have m: "members_allocated w2"
      using assms by (rule members_allocated_cong [rotated 2]) (simp_all add: a)
    have "members_allocated (set_app (updateTodo (heap w2) (next_ref w)) w2)"
      using m assms
      by (intro set_app_allocated) (auto simp: a updateTodo_def members_allocated_def)
    then show ?thesis unfolding SaveK One using m
      by (simp add: resolve_def split_def Let_def alloc_fields w2_def)
  qed (simp_all add: resolve_def SaveK assms)
next
  case (DestroyK n cb r)
  define w2 where "w2 = setIsSaving n False w"
  have a: "app w2 = app w" "next_ref w2 = next_ref w"
    by (simp_all add: w2_def setIsSaving_fields)
  have m: "members_allocated w2"
    using assms by (rule members_allocated_cong [rotated 2]) (simp_all add: a)
  have "members_allocated (set_app (removeTodo (heap w2) r) w2)"
    using m assms
    by (intro set_app_allocated) (auto simp: a removeTodo_def members_allocated_def)
  then show ?thesis unfolding DestroyK using m
    by (cases p) (simp_all add: resolve_def Let_def w2_def)
qed

lemma step_allocated:
  assumes "members_allocated w"
  shows "members_allocated (step e w)"
proof (cases e)
  case ClickAdd
  have "members_allocated (snd (alloc \<lparr>todo_id = None, todo_text = [], todo_createdAt = None\<rparr> w))"
    using assms by (rule members_allocated_cong [rotated 2]) (simp_all add: alloc_fields)
  then have "members_allocated
     (set_app (\<lambda>a. a\<lparr>newTodo := Some (next_ref w)\<rparr>)
        (snd (alloc \<lparr>todo_id = None, todo_text = [], todo_createdAt = None\<rparr> w)))"
    by (intro set_app_allocated) (auto simp: members_allocated_def)
  then show ?thesis unfolding ClickAdd using assms by (simp add: split_def alloc_fields)
next
  case ClickReset
  then show ?thesis using assms
    by (auto simp: members_allocated_def reset_app reset_fields set_sorted_todos
        simp del: step.simps)
next
  case Unmount
  then show ?thesis using assms by (auto simp: members_allocated_def load_cleanup_def)
next
  case (Change n s)
  then show ?thesis using assms
    by (auto simp: members_allocated_def put_item_fields split: option.splits)
next
  case (Submit n)
  then show ?thesis using assms
    by (auto simp: members_allocated_def Let_def split_def issue_fields put_item_fields
        split: option.splits)
next
  case (Check n c)
  then show ?thesis using assms
    by (auto simp: members_allocated_def check_fields simp del: step.simps)
next
  case (Elapse d)
  then show ?thesis using assms by (auto simp: members_allocated_def elapse_fields)
next
  case (Respond i p)
  have "members_allocated (w\<lparr>pending := remove_nth i (pending w)\<rparr>)"
    using assms by (simp add: members_allocated_def)
  then show ?thesis unfolding Respond using assms by (simp add: resolve_allocated)
next
  case (Reject i)
  then show ?thesis using assms by (simp add: members_allocated_def)
qed

lemma run_allocated: "members_allocated w \<Longrightarrow> members_allocated (run es w)"
  by (induction es arbitrary: w) (simp_all add: step_allocated)

lemma reachable_allocated: "members_allocated (run es (init srv eng))"
  by (rule run_allocated)
     (simp add: members_allocated_def init_def first_render_def load_effect_fields)

subsection \<open>Commit of a draft\<close>

lemma submit_draft:
  assumes "draft_item w = Some it" and "\<not> has_id (heap w (todo it))"
  shows "step (Submit (inst it)) w
         = issue [(POST_todos ((heap w (todo it))\<lparr>todo_text := text_buf it,
                                                  todo_createdAt := Some (now w)\<rparr>),
                   CreateK (inst it) (didCreate it))]
             (w\<lparr>heap := (heap w)(todo it := (heap w (todo it))\<lparr>todo_text := text_buf it,
                                                  todo_createdAt := Some (now w)\<rparr>),
                 draft_item := Some (it\<lparr>isSaving := True\<rparr>)\<rparr>)"
  using assms by (simp add: find_item_draft handleSubmit_def createTodo_def put_item_def)

lemma create_resolved:
  assumes "mounted w" and "members_allocated w" and "i < length (pending w)"
    and "snd (pending w ! i) = CreateK m True"
  shows "newTodo (app (step (Respond i (One t)) w)) = None
         \<and> mset (collection (step (Respond i (One t)) w)) = add_mset t (mset (collection w))
         \<and> length (collection (step (Respond i (One t)) w)) = Suc (length (collection w))"
proof -
  define w0 where "w0 = w\<lparr>pending := remove_nth i (pending w)\<rparr>"
  define w2 where "w2 = setIsSaving m False (snd (alloc t w0))"
  have s: "step (Respond i (One t)) w = set_app (addTodo (next_ref w)) w2"
    using assms(3,4) by (simp add: resolve_def split_def Let_def w0_def w2_def alloc_fields)
  have h: "heap w2 = (heap w)(next_ref w := t)" and m: "mounted w2" and a: "app w2 = app w"
    using assms(1) by (simp_all add: w2_def w0_def setIsSaving_fields alloc_fields)
  have c: "collection (step (Respond i (One t)) w)
           = map ((heap w)(next_ref w := t))
               (if isLoading (app w) then next_ref w # todos (app w)
                else sorted_todos (engine w2) ((heap w)(next_ref w := t)) (next_ref w # todos (app w)))"
    unfolding s collection_def by (simp add: set_app_fields set_app_app h m a addTodo_def)
  have "mset (collection (step (Respond i (One t)) w))
        = mset (map ((heap w)(next_ref w := t)) (next_ref w # todos (app w)))"
    unfolding c by (cases "isLoading (app w)") (simp_all only: mset_map_sorted if_True if_False)
  then have "mset (collection (step (Respond i (One t)) w)) = add_mset t (mset (collection w))"
    using map_heap_fresh [OF assms(2)] by simp
  moreover from this have "length (collection (step (Respond i (One t)) w)) = Suc (length (collection w))"
    by (metis size_mset size_add_mset)
  moreover have "newTodo (app (step (Respond i (One t)) w)) = None"
    unfolding s by (simp add: set_app_app m a addTodo_def)
  ultimately show ?thesis by blast
qed

text \<open>
  Claim C3. A commit attempt on the draft (its todo has no id), whatever its buffer,
  issues exactly one request: a \<open>POST\<close> whose body is the draft with the buffer as text and
  the current time as \<open>createdAt\<close>; its callback is the one that reports to \<open>didCreate\<close>, the
  item is now saving and the collection is as before. When a create request of a draft
  resolves with a todo, \<open>addTodo\<close> clears \<open>newTodo\<close> and the collection is the one before
  plus that todo: exactly one member more.
\<close>

theorem draft_commit_creates:
  "(draft_item w = Some it \<and> didCreate it \<and> \<not> has_id (heap w (todo it)) \<longrightarrow>
      requests (step (Submit (inst it)) w)
        = requests w @ [POST_todos ((heap w (todo it))\<lparr>todo_text := text_buf it,
                                                       todo_createdAt := Some (now w)\<rparr>)]
      \<and> pending (step (Submit (inst it)) w)
        = pending w @ [(POST_todos ((heap w (todo it))\<lparr>todo_text := text_buf it,
                                                       todo_createdAt := Some (now w)\<rparr>),
                        CreateK (inst it) True)]
      \<and> draft_item (step (Submit (inst it)) w) = Some (it\<lparr>isSaving := True\<rparr>)
      \<and> todos (app (step (Submit (inst it)) w)) = todos (app w))
   \<and> (mounted w \<and> members_allocated w \<and> i < length (pending w)
        \<and> snd (pending w ! i) = CreateK m True \<longrightarrow>
      newTodo (app (step (Respond i (One t)) w)) = None
      \<and> mset (collection (step (Respond i (One t)) w)) = add_mset t (mset (collection w))
      \<and> length (collection (step (Respond i (One t)) w)) = Suc (length (collection w)))"
proof -
  have "draft_item w = Some it \<and> didCreate it \<and> \<not> has_id (heap w (todo it)) \<longrightarrow>
      requests (step (Submit (inst it)) w)
        = requests w @ [POST_todos ((heap w (todo it))\<lparr>todo_text := text_buf it,
                                                       todo_createdAt := Some (now w)\<rparr>)]
      \<and> pending (step (Submit (inst it)) w)
        = pending w @ [(POST_todos ((heap w (todo it))\<lparr>todo_text := text_buf it,
                                                       todo_createdAt := Some (now w)\<rparr>),
                        CreateK (inst it) True)]
      \<and> draft_item (step (Submit (inst it)) w) = Some (it\<lparr>isSaving := True\<rparr>)
      \<and> todos (app (step (Submit (inst it)) w)) = todos (app w)"
    by (simp add: submit_draft issue_fields del: step.simps)
  then show ?thesis using create_resolved by blast
qed

lemma drafting_facts:
  "draft_item (drafting eng) = Some draft_C" "heap (drafting eng) (todo draft_C) = \<lparr>todo_id = None, todo_text = [], todo_createdAt = None\<rparr>"
  "requests (drafting eng) = [GET_todos]" "pending (drafting eng) = []" "now (drafting eng) = 0"
  "mounted (drafting eng)" "inst draft_C = 2" "didCreate draft_C" "text_buf draft_C = ''C''"
  unfolding drafting_def loaded_eq by (simp_all add: eval_defs draft_C_def)

theorem draft_commit_creates_witness:
  "\<forall>eng. draft_item (drafting eng) = Some draft_C \<and> didCreate draft_C \<and> \<not> has_id (heap (drafting eng) (todo draft_C))
   \<and> requests (submitted eng)
       = [GET_todos, POST_todos \<lparr>todo_id = None, todo_text = ''C'', todo_createdAt = Some 0\<rparr>]
   \<and> mounted (submitted eng) \<and> members_allocated (submitted eng)
   \<and> snd (pending (submitted eng) ! 0) = CreateK 2 True
   \<and> newTodo (app (step (Respond 0 (One todo_C)) (submitted eng))) = None
   \<and> mset (collection (step (Respond 0 (One todo_C)) (submitted eng)))
       = add_mset todo_C (mset (collection (submitted eng)))"
proof
  fix eng
  have h: "\<not> has_id (heap (drafting eng) (todo draft_C))"
    by (simp add: drafting_facts has_id_def)
  have "requests (step (Submit (inst draft_C)) (drafting eng))
        = requests (drafting eng) @ [POST_todos ((heap (drafting eng) (todo draft_C))\<lparr>todo_text := text_buf draft_C,
                                           todo_createdAt := Some (now (drafting eng))\<rparr>)]
      \<and> pending (step (Submit (inst draft_C)) (drafting eng))
        = pending (drafting eng) @ [(POST_todos ((heap (drafting eng) (todo draft_C))\<lparr>todo_text := text_buf draft_C,
                                                       todo_createdAt := Some (now (drafting eng))\<rparr>),
                        CreateK (inst draft_C) True)]"
    using draft_commit_creates [where w = "drafting eng" and it = draft_C] h drafting_facts(1,8) by blast
  then have r: "requests (submitted eng)
       = [GET_todos, POST_todos \<lparr>todo_id = None, todo_text = ''C'', todo_createdAt = Some 0\<rparr>]"
    and p: "pending (submitted eng)
       = [(POST_todos \<lparr>todo_id = None, todo_text = ''C'', todo_createdAt = Some 0\<rparr>, CreateK 2 True)]"
    unfolding submitted_def drafting_facts by simp_all
  have m: "mounted (submitted eng)"
    unfolding submitted_def drafting_def loaded_eq by (simp add: eval_defs)
  have a: "members_allocated (submitted eng)"
    unfolding submitted_def drafting_def by (intro step_allocated run_allocated loaded_facts(2))
  have l: "0 < length (pending (submitted eng))" "snd (pending (submitted eng) ! 0) = CreateK 2 True"
    by (simp_all add: p)
  have "newTodo (app (step (Respond 0 (One todo_C)) (submitted eng))) = None
      \<and> mset (collection (step (Respond 0 (One todo_C)) (submitted eng)))
          = add_mset todo_C (mset (collection (submitted eng)))"
    using draft_commit_creates [where w = "submitted eng" and i = 0 and m = 2 and t = todo_C] m a l
    by blast
  then show "draft_item (drafting eng) = Some draft_C \<and> didCreate draft_C \<and> \<not> has_id (heap (drafting eng) (todo draft_C))
   \<and> requests (submitted eng)
       = [GET_todos, POST_todos \<lparr>todo_id = None, todo_text = ''C'', todo_createdAt = Some 0\<rparr>]
   \<and> mounted (submitted eng) \<and> members_allocated (submitted eng)
   \<and> snd (pending (submitted eng) ! 0) = CreateK 2 True
   \<and> newTodo (app (step (Respond 0 (One todo_C)) (submitted eng))) = None
   \<and> mset (collection (step (Respond 0 (One todo_C)) (submitted eng)))
       = add_mset todo_C (mset (collection (submitted eng)))"
    using h r m a l drafting_facts(1,8) by blast
qed

subsection \<open>Commit of a persisted item\<close>

lemma submit_unchanged:
  assumes "find_item n w = Some it" and "has_id (heap w (todo it))"
    and "todo_text (heap w (todo it)) = text_buf it"
  shows "step (Submit n) w = w"
  using assms by (simp add: handleSubmit_def issue_def put_item_same)

lemma submit_changed:
  assumes "find_item n w = Some it" and "has_id (heap w (todo it))"
    and "todo_text (heap w (todo it)) \<noteq> text_buf it"
  shows "step (Submit n) w
         = issue [(PATCH_todo (url_id (todo_id (heap w (todo it))))
                     ((heap w (todo it))\<lparr>todo_text := text_buf it\<rparr>),
                   SaveK n (didSave it))]
             (put_item (it\<lparr>isSaving := True\<rparr>)
                (w\<lparr>heap := (heap w)(todo it := (heap w (todo it))\<lparr>todo_text := text_buf it\<rparr>)\<rparr>))"
  using assms find_item_inst [OF assms(1)] by (simp add: handleSubmit_def saveTodo_def)

lemma has_id_url: "has_id t \<Longrightarrow> todo_id t = Some (url_id (todo_id t))"
  by (simp add: has_id_def url_id_def split: option.splits)

lemma update_resolved:
  assumes "mounted w" and "members_allocated w" and "i < length (pending w)"
    and "snd (pending w ! i) = SaveK m True"
  shows "mset (collection (step (Respond i (One t)) w))
         = mset (map (\<lambda>g. if todo_id g = todo_id t then t else g) (collection w))"
proof -
  define w0 where "w0 = w\<lparr>pending := remove_nth i (pending w)\<rparr>"
  define w2 where "w2 = setIsSaving m False (snd (alloc t w0))"
  define h' where "h' = (heap w)(next_ref w := t)"
  have s: "step (Respond i (One t)) w = set_app (updateTodo h' (next_ref w)) w2"
    using assms(3,4)
    by (simp add: resolve_def split_def Let_def w0_def w2_def h'_def alloc_fields setIsSaving_fields)
  have h: "heap w2 = h'" and m: "mounted w2" and a: "app w2 = app w"
    using assms(1) by (simp_all add: w2_def w0_def h'_def setIsSaving_fields alloc_fields)
  have c: "collection (step (Respond i (One t)) w)
           = map h' (if isLoading (app w) then todos (updateTodo h' (next_ref w) (app w))
                     else sorted_todos (engine w2) h' (todos (updateTodo h' (next_ref w) (app w))))"
    unfolding s collection_def by (simp add: set_app_fields set_app_app h m a updateTodo_def)
  have "mset (collection (step (Respond i (One t)) w))
        = mset (map h' (todos (updateTodo h' (next_ref w) (app w))))"
    unfolding c by (cases "isLoading (app w)") (simp_all only: mset_map_sorted if_True if_False)
  moreover have "map h' (todos (updateTodo h' (next_ref w) (app w)))
        = map (\<lambda>g. if todo_id g = todo_id t then t else g) (collection w)"
    using assms(2) by (auto simp: updateTodo_def collection_def members_allocated_def h'_def)
  ultimately show ?thesis by simp
qed

text \<open>
  Claim C4. For an item whose todo has an id, a commit attempt with the buffer equal to
  the todo's text changes nothing and issues nothing; with a different buffer it issues
  exactly one request, a \<open>PATCH\<close> for that id whose body is the todo with the buffer as
  text, and its callback is the one that reports to \<open>didSave\<close>. When an update request of a
  member resolves with a todo, \<open>updateTodo\<close> puts it in the place of every member of that
  id.
\<close>

theorem persisted_commit_updates:
  "(find_item n w = Some it \<and> has_id (heap w (todo it)) \<longrightarrow>
      todo_id (heap w (todo it)) = Some (url_id (todo_id (heap w (todo it))))
      \<and> (todo_text (heap w (todo it)) = text_buf it \<longrightarrow> step (Submit n) w = w)
      \<and> (todo_text (heap w (todo it)) \<noteq> text_buf it \<longrightarrow>
            requests (step (Submit n) w)
              = requests w @ [PATCH_todo (url_id (todo_id (heap w (todo it))))
                                ((heap w (todo it))\<lparr>todo_text := text_buf it\<rparr>)]
            \<and> pending (step (Submit n) w)
              = pending w @ [(PATCH_todo (url_id (todo_id (heap w (todo it))))
                                ((heap w (todo it))\<lparr>todo_text := text_buf it\<rparr>),
                              SaveK n (didSave it))]))
   \<and> (mounted w \<and> members_allocated w \<and> i < length (pending w)
        \<and> snd (pending w ! i) = SaveK m True \<longrightarrow>
      mset (collection (step (Respond i (One t)) w))
        = mset (map (\<lambda>g. if todo_id g = todo_id t then t else g) (collection w)))"
proof -
  have "find_item n w = Some it \<and> has_id (heap w (todo it))
        \<and> todo_text (heap w (todo it)) \<noteq> text_buf it \<longrightarrow>
            requests (step (Submit n) w)
              = requests w @ [PATCH_todo (url_id (todo_id (heap w (todo it))))
                                ((heap w (todo it))\<lparr>todo_text := text_buf it\<rparr>)]
            \<and> pending (step (Submit n) w)
              = pending w @ [(PATCH_todo (url_id (todo_id (heap w (todo it))))
                                ((heap w (todo it))\<lparr>todo_text := text_buf it\<rparr>),
                              SaveK n (didSave it))]"
    by (simp add: submit_changed issue_fields put_item_fields del: step.simps)
  then show ?thesis
    using submit_unchanged has_id_url update_resolved by blast
qed

lemma typed_facts:
  "find_item 1 (typed eng) = Some item_AA" "heap (typed eng) (todo item_AA) = todo_A"
  "requests (typed eng) = [GET_todos]" "pending (typed eng) = []" "text_buf item_AA = ''AA''"
  "didSave item_AA" "todo item_AA = 1" "heap (typed eng) (Suc 0) = todo_A"
  unfolding typed_def loaded_eq
  by (simp_all add: eval_defs item_AA_def item_A_def)

lemma saving_facts:
  "mounted (saving eng)" "find_item 1 (saving eng) = Some (item_AA\<lparr>isSaving := True\<rparr>)"
  "collection (saving eng) = [todo_B, todo_AA]"
  unfolding saving_def typed_def loaded_eq
  by (simp_all add: eval_defs item_AA_def item_A_def todo_AA_def)

lemma saving_allocated: "members_allocated (saving eng)"
  unfolding saving_def typed_def by (intro step_allocated run_allocated loaded_facts(2))

theorem persisted_commit_updates_witness:
  "\<forall>eng. find_item 1 (loaded eng) = Some item_A \<and> has_id (heap (loaded eng) (todo item_A))
   \<and> todo_text (heap (loaded eng) (todo item_A)) = text_buf item_A
   \<and> step (Submit 1) (loaded eng) = (loaded eng)
   \<and> find_item 1 (typed eng) = Some item_AA \<and> has_id (heap (typed eng) (todo item_AA))
   \<and> todo_text (heap (typed eng) (todo item_AA)) \<noteq> text_buf item_AA
   \<and> requests (saving eng) = [GET_todos, PATCH_todo ''1'' todo_AA]
   \<and> pending (saving eng) = [(PATCH_todo ''1'' todo_AA, SaveK 1 True)]
   \<and> mounted (saving eng) \<and> members_allocated (saving eng)
   \<and> mset (collection (step (Respond 0 (One todo_AA)) (saving eng))) = mset [todo_B, todo_AA]"
proof
  fix eng
  have a: "has_id (heap (loaded eng) (todo item_A))"
    "todo_text (heap (loaded eng) (todo item_A)) = text_buf item_A"
    by (simp_all add: loaded_facts item_A_def mount_item_def todo_A_def has_id_def)
  have 1: "step (Submit 1) (loaded eng) = (loaded eng)"
    using persisted_commit_updates [where n = 1 and w = "loaded eng" and it = item_A]
      loaded_facts(3) a by blast
  have b: "has_id (heap (typed eng) (todo item_AA))"
    "todo_text (heap (typed eng) (todo item_AA)) \<noteq> text_buf item_AA"
    by (simp_all add: typed_facts todo_A_def has_id_def)
  have "requests (step (Submit 1) (typed eng))
          = requests (typed eng) @ [PATCH_todo (url_id (todo_id (heap (typed eng) (todo item_AA))))
                                ((heap (typed eng) (todo item_AA))\<lparr>todo_text := text_buf item_AA\<rparr>)]
        \<and> pending (step (Submit 1) (typed eng))
          = pending (typed eng) @ [(PATCH_todo (url_id (todo_id (heap (typed eng) (todo item_AA))))
                                ((heap (typed eng) (todo item_AA))\<lparr>todo_text := text_buf item_AA\<rparr>),
                              SaveK 1 (didSave item_AA))]"
    using persisted_commit_updates [where n = 1 and w = "typed eng" and it = item_AA]
      typed_facts(1) b by blast
  then have 2: "requests (saving eng) = [GET_todos, PATCH_todo ''1'' todo_AA]"
    and 3: "pending (saving eng) = [(PATCH_todo ''1'' todo_AA, SaveK 1 True)]"
    unfolding saving_def [symmetric]
    by (simp_all add: typed_facts todo_A_def todo_AA_def url_id_def)
  have l: "0 < length (pending (saving eng))" "snd (pending (saving eng) ! 0) = SaveK 1 True"
    by (simp_all add: 3)
  have "mset (collection (step (Respond 0 (One todo_AA)) (saving eng)))
        = mset (map (\<lambda>g. if todo_id g = todo_id todo_AA then todo_AA else g) (collection (saving eng)))"
    using persisted_commit_updates [where w = "saving eng" and i = 0 and m = 1 and t = todo_AA]
      saving_facts(1) saving_allocated l by blast
  then have 4: "mset (collection (step (Respond 0 (One todo_AA)) (saving eng))) = mset [todo_B, todo_AA]"
    unfolding saving_facts by (simp add: todo_AA_def todo_A_def todo_B_def)
  show "find_item 1 (loaded eng) = Some item_A \<and> has_id (heap (loaded eng) (todo item_A))
   \<and> todo_text (heap (loaded eng) (todo item_A)) = text_buf item_A
   \<and> step (Submit 1) (loaded eng) = (loaded eng)
   \<and> find_item 1 (typed eng) = Some item_AA \<and> has_id (heap (typed eng) (todo item_AA))
   \<and> todo_text (heap (typed eng) (todo item_AA)) \<noteq> text_buf item_AA
   \<and> requests (saving eng) = [GET_todos, PATCH_todo ''1'' todo_AA]
   \<and> pending (saving eng) = [(PATCH_todo ''1'' todo_AA, SaveK 1 True)]
   \<and> mounted (saving eng) \<and> members_allocated (saving eng)
   \<and> mset (collection (step (Respond 0 (One todo_AA)) (saving eng))) = mset [todo_B, todo_AA]"
   
    using loaded_facts(3) a 1 typed_facts(1) b 2 3 4 saving_facts(1) saving_allocated by blast
qed

subsection \<open>Commit while saving\<close>

text \<open>
  Claim C7 fails on the draft. After the first commit the draft is saving and one \<open>POST\<close>
  has been issued; a second commit attempt issues a second \<open>POST\<close>: \<open>handleSubmit\<close> does
  not look at \<open>isSaving\<close>, and the todo of the draft still has no id.
\<close>

theorem submit_while_saving_posts_again:
  "\<forall>eng. map_option isSaving (find_item 2 (run submit_session (loaded eng))) = Some True
   \<and> requests (run submit_session (loaded eng))
       = [GET_todos, POST_todos \<lparr>todo_id = None, todo_text = ''C'', todo_createdAt = Some 0\<rparr>]
   \<and> requests (run submit_twice_session (loaded eng))
       = [GET_todos, POST_todos \<lparr>todo_id = None, todo_text = ''C'', todo_createdAt = Some 0\<rparr>,
          POST_todos \<lparr>todo_id = None, todo_text = ''C'', todo_createdAt = Some 0\<rparr>]"
  unfolding loaded_eq submit_session_def submit_twice_session_def by (simp add: eval_defs)

lemma submit_twice:
  assumes "find_item n w = Some it" and "has_id (heap w (todo it))"
  shows "step (Submit n) (step (Submit n) w) = step (Submit n) w"
proof (cases "todo_text (heap w (todo it)) = text_buf it")
  case True
  with assms show ?thesis by (simp add: submit_unchanged del: step.simps)
next
  case False
  define it' where "it' = it\<lparr>isSaving := True\<rparr>"
  define w1 where "w1 = step (Submit n) w"
  have n: "inst it' = n" using find_item_inst [OF assms(1)] by (simp add: it'_def)
  have w1: "w1 = issue [(PATCH_todo (url_id (todo_id (heap w (todo it))))
                     ((heap w (todo it))\<lparr>todo_text := text_buf it\<rparr>),
                   SaveK n (didSave it))]
             (put_item it'
                (w\<lparr>heap := (heap w)(todo it := (heap w (todo it))\<lparr>todo_text := text_buf it\<rparr>)\<rparr>))"
    unfolding w1_def it'_def using assms False by (rule submit_changed)
  have "find_item (inst it') (w\<lparr>heap := (heap w)(todo it := (heap w (todo it))\<lparr>todo_text := text_buf it\<rparr>)\<rparr>)
        = Some it"
    using assms(1) n by (simp add: find_item_frame)
  then have "find_item (inst it')
          (put_item it' (w\<lparr>heap := (heap w)(todo it := (heap w (todo it))\<lparr>todo_text := text_buf it\<rparr>)\<rparr>))
        = Some it'"
    by (rule find_item_put)
  then have f: "find_item n w1 = Some it'"
    unfolding w1 n by (simp add: find_item_frame)
  have t: "todo it' = todo it" "text_buf it' = text_buf it" by (simp_all add: it'_def)
  have h: "heap w1 (todo it) = (heap w (todo it))\<lparr>todo_text := text_buf it\<rparr>"
    unfolding w1 by (simp add: issue_fields put_item_fields)
  have "step (Submit n) w1 = w1"
    using f
  proof (rule submit_unchanged)
    show "has_id (heap w1 (todo it'))" using assms(2) by (simp add: t h has_id_def)
    show "todo_text (heap w1 (todo it')) = text_buf it'" by (simp add: t h)
  qed
  then show ?thesis by (simp only: w1_def)
qed

text \<open>
  Claim C7 as amended. While an item is saving, both of its controls are disabled: a
  change of the text and a change of the checkbox do nothing. A commit attempt does
  nothing when the todo has an id and the buffer equals its text; that is the case after
  an update has been issued, since \<open>saveTodo\<close> writes the buffer into the todo, so a second
  commit attempt on an item with an id changes nothing and issues nothing.
\<close>

theorem saving_disables_controls:
  "(find_item n w = Some it \<and> isSaving it \<longrightarrow>
      checkbox_disabled it \<and> input_disabled it
      \<and> step (Change n s) w = w \<and> step (Check n c) w = w
      \<and> (has_id (heap w (todo it)) \<and> todo_text (heap w (todo it)) = text_buf it
           \<longrightarrow> step (Submit n) w = w))
   \<and> (find_item n w = Some it \<and> has_id (heap w (todo it)) \<longrightarrow>
        step (Submit n) (step (Submit n) w) = step (Submit n) w)"
proof -
  have "find_item n w = Some it \<and> isSaving it \<longrightarrow>
      checkbox_disabled it \<and> input_disabled it
      \<and> step (Change n s) w = w \<and> step (Check n c) w = w"
    by (simp add: checkbox_disabled_def input_disabled_def)
  then show ?thesis using submit_unchanged submit_twice by blast
qed

theorem saving_disables_controls_witness:
  "\<forall>eng. find_item 1 (saving eng) = Some (item_AA\<lparr>isSaving := True\<rparr>) \<and> isSaving (item_AA\<lparr>isSaving := True\<rparr>)
   \<and> step (Change 1 ''AAA'') (saving eng) = (saving eng) \<and> step (Check 1 True) (saving eng) = (saving eng)
   \<and> step (Submit 1) (saving eng) = (saving eng)
   \<and> find_item 1 (typed eng) = Some item_AA \<and> has_id (heap (typed eng) (todo item_AA))
   \<and> step (Submit 1) (step (Submit 1) (typed eng)) = step (Submit 1) (typed eng)"
proof
  fix eng
  have s: "isSaving (item_AA\<lparr>isSaving := True\<rparr>)" by simp
  have h: "has_id (heap (saving eng) (todo (item_AA\<lparr>isSaving := True\<rparr>)))
           \<and> todo_text (heap (saving eng) (todo (item_AA\<lparr>isSaving := True\<rparr>)))
               = text_buf (item_AA\<lparr>isSaving := True\<rparr>)"
    unfolding saving_def typed_def loaded_eq
    by (simp add: eval_defs item_AA_def item_A_def)
  have 1: "step (Change 1 ''AAA'') (saving eng) = (saving eng) \<and> step (Check 1 True) (saving eng) = (saving eng)
        \<and> step (Submit 1) (saving eng) = (saving eng)"
    using saving_disables_controls
      [where n = 1 and w = "saving eng" and it = "item_AA\<lparr>isSaving := True\<rparr>" and s = "''AAA''"
         and c = True]
      saving_facts(2) s h by blast
  have b: "has_id (heap (typed eng) (todo item_AA))"
    by (simp add: typed_facts todo_A_def has_id_def)
  have 2: "step (Submit 1) (step (Submit 1) (typed eng)) = step (Submit 1) (typed eng)"
    using saving_disables_controls [where n = 1 and w = "typed eng" and it = item_AA] typed_facts(1) b
    by blast
  show "find_item 1 (saving eng) = Some (item_AA\<lparr>isSaving := True\<rparr>) \<and> isSaving (item_AA\<lparr>isSaving := True\<rparr>)
   \<and> step (Change 1 ''AAA'') (saving eng) = (saving eng) \<and> step (Check 1 True) (saving eng) = (saving eng)
   \<and> step (Submit 1) (saving eng) = (saving eng)
   \<and> find_item 1 (typed eng) = Some item_AA \<and> has_id (heap (typed eng) (todo item_AA))
   \<and> step (Submit 1) (step (Submit 1) (typed eng)) = step (Submit 1) (typed eng)"
    using saving_facts(2) s 1 typed_facts(1) b 2 by blast
qed

subsection \<open>When the collection changes\<close>

lemma submit_heap:
  "find_item n w = Some it \<Longrightarrow>
   heap (step (Submit n) w) r
   = (if r = todo it
      then fst (handleSubmit (now w) (heap w) it) (todo it)
      else heap w r)"
  by (simp add: Let_def split_def issue_fields put_item_fields handleSubmit_def createTodo_def
      saveTodo_def)

lemma handleSubmit_id:
  "todo_id (fst (handleSubmit t h it) r) = todo_id (h r)"
  by (simp add: handleSubmit_def createTodo_def saveTodo_def Let_def)

lemma submit_app: "app (step (Submit n) w) = app w"
  by (simp add: Let_def split_def issue_fields put_item_fields split: option.splits)

lemma submit_none: "find_item n w = None \<Longrightarrow> step (Submit n) w = w"
  by simp

text \<open>
  Claim C6 fails for the text of the member being saved. The collection is "2", "1" with
  the texts "B" and "A". The text of "1" is edited to "AA" and committed: while the
  \<open>PATCH\<close> is still in flight, the member of the collection already reads "AA", because
  \<open>saveTodo\<close> writes \<open>todo.text\<close> on the object that the collection holds.
\<close>

theorem member_text_written_before_confirmation:
  "\<forall>eng. collection (loaded eng) = [todo_B, todo_A]
   \<and> pending (run edit_session (loaded eng))
       = [(PATCH_todo ''1'' (todo_A\<lparr>todo_text := ''AA''\<rparr>), SaveK 1 True)]
   \<and> collection (run edit_session (loaded eng)) = [todo_B, todo_A\<lparr>todo_text := ''AA''\<rparr>]"
  unfolding loaded_eq edit_session_def by (simp add: eval_defs)

text \<open>
  Claim C6 as amended. An event that is not the resolution of a request leaves the
  collection with the same members and every member with its id. Unless the event is a
  commit, every member is left as it was; a commit writes to one object only, the todo of
  the item that is committed.
\<close>

theorem collection_changes_on_resolution:
  assumes "members_allocated w" and "\<forall>i p. e \<noteq> Respond i p"
  shows "mset (todos (app (step e w))) = mset (todos (app w))
         \<and> (\<forall>r \<in> set (todos (app w)).
               todo_id (heap (step e w) r) = todo_id (heap w r)
               \<and> ((\<forall>n. e \<noteq> Submit n) \<longrightarrow> heap (step e w) r = heap w r)
               \<and> (\<forall>n it. e = Submit n \<and> find_item n w = Some it \<and> r \<noteq> todo it
                     \<longrightarrow> heap (step e w) r = heap w r))"
proof (cases e)
  case ClickAdd
  have "\<forall>r \<in> set (todos (app w)). r \<noteq> next_ref w"
    using assms(1) by (auto simp: members_allocated_def)
  then show ?thesis unfolding ClickAdd
    by (simp add: split_def set_app_app set_app_fields alloc_fields mset_sorted_todos)
next
  case ClickReset
  then show ?thesis
    by (simp add: reset_app reset_fields mset_sorted_todos del: step.simps)
next
  case Unmount
  then show ?thesis by (simp add: load_cleanup_def)
next
  case (Change n s)
  then show ?thesis by (simp add: put_item_fields split: option.splits)
next
  case (Submit n)
  show ?thesis
  proof (cases "find_item n w")
    case None
    then show ?thesis unfolding Submit by simp
  next
    case (Some it)
    show ?thesis unfolding Submit
      by (simp add: submit_app submit_heap [OF Some] handleSubmit_id Some del: step.simps)
  qed
next
  case (Check n c)
  then show ?thesis by (simp add: check_fields del: step.simps)
next
  case (Elapse d)
  then show ?thesis by (simp add: elapse_fields)
next
  case (Respond i p)
  then show ?thesis using assms(2) by simp
next
  case (Reject i)
  then show ?thesis by simp
qed

theorem collection_changes_on_resolution_witness:
  "\<forall>eng. members_allocated (typed eng)
   \<and> mset (todos (app (step (Submit 1) (typed eng)))) = mset (todos (app (typed eng)))
   \<and> todo_id (heap (step (Submit 1) (typed eng)) 1) = todo_id (heap (typed eng) 1)
   \<and> heap (step (Submit 1) (typed eng)) 0 = heap (typed eng) 0
   \<and> mset (todos (app (step ClickAdd (typed eng)))) = mset (todos (app (typed eng)))
   \<and> heap (step ClickAdd (typed eng)) 1 = heap (typed eng) 1"
proof
  fix eng
  have a: "members_allocated (typed eng)"
    unfolding typed_def by (intro run_allocated loaded_facts(2))
  have t: "todos (app (typed eng)) = [0, 1]"
    unfolding typed_def loaded_eq by (simp add: eval_defs)
  have n: "\<forall>i p. Submit 1 \<noteq> Respond i p" "\<forall>i p. ClickAdd \<noteq> Respond i p" "\<forall>n. ClickAdd \<noteq> Submit n"
    by simp_all
  have m: "(0::nat) \<in> set (todos (app (typed eng)))" "(1::nat) \<in> set (todos (app (typed eng)))"
    "(0::nat) \<noteq> todo item_AA"
    by (simp_all add: t typed_facts)
  note one = collection_changes_on_resolution [OF a n(1)]
  note two = collection_changes_on_resolution [OF a n(2)]
  have "mset (todos (app (step (Submit 1) (typed eng)))) = mset (todos (app (typed eng)))"
    using one by blast
  moreover have "todo_id (heap (step (Submit 1) (typed eng)) 1) = todo_id (heap (typed eng) 1)"
    using one m(2) by blast
  moreover have "heap (step (Submit 1) (typed eng)) 0 = heap (typed eng) 0"
    using one m(1,3) typed_facts(1) by blast
  moreover have "mset (todos (app (step ClickAdd (typed eng)))) = mset (todos (app (typed eng)))"
    using two by blast
  moreover have "heap (step ClickAdd (typed eng)) 1 = heap (typed eng) 1"
    using two m(2) n(3) by blast
  ultimately show "members_allocated (typed eng)
   \<and> mset (todos (app (step (Submit 1) (typed eng)))) = mset (todos (app (typed eng)))
   \<and> todo_id (heap (step (Submit 1) (typed eng)) 1) = todo_id (heap (typed eng) 1)
   \<and> heap (step (Submit 1) (typed eng)) 0 = heap (typed eng) 0
   \<and> mset (todos (app (step ClickAdd (typed eng)))) = mset (todos (app (typed eng)))
   \<and> heap (step ClickAdd (typed eng)) 1 = heap (typed eng) 1"
    using a by blast
qed

end
